theory Spec2Isabelle
  imports Complex_Main "HOL-Library.Log_Nat" "HOL-Library.Char_ord"
    "HOL-Library.List_Lexorder" "HOL-Library.Product_Lexorder"
begin

section \<open>The record store of Finance-App.py\<close>

text \<open>
  The program keeps three SQLite tables, created by \<open>init_db\<close>:
  \<^verbatim>\<open>users(username TEXT PRIMARY KEY)\<close>,
  \<^verbatim>\<open>expenses(id INTEGER PRIMARY KEY, username TEXT, date TEXT, category TEXT,
  amount REAL, description TEXT)\<close> and
  \<^verbatim>\<open>budget(username TEXT, category TEXT, monthly_limit REAL,
  PRIMARY KEY(username, category))\<close>.
  A table is a list of rows in insertion order. TEXT is \<open>string\<close>, INTEGER is
  \<open>int\<close>. A REAL column holds binary64 values: a row keeps the number it was given,
  as a rational, and every reader of the column takes it rounded to binary64 (\<open>fl\<close>
  below), which is the number itself whenever it is a Python float. The \<open>date\<close>
  column is polymorphic in the record so that the same row type serves before (TEXT) and
  after (\<open>pd.to_datetime\<close>) parsing.
\<close>

record 'd expense =
  e_id :: int
  e_username :: string
  e_date :: 'd
  e_category :: string
  e_amount :: rat
  e_description :: string

record budget_row =
  b_username :: string
  b_category :: string
  monthly_limit :: rat

record db =
  users :: "string list"
  expenses :: "string expense list"
  budget :: "budget_row list"

text \<open>\<open>init_db\<close> on a fresh database file: three empty tables.\<close>

definition init_db :: db where
  "init_db = \<lparr>users = [], expenses = [], budget = []\<rparr>"

text \<open>\<^verbatim>\<open>INSERT OR IGNORE INTO users (username) VALUES (?)\<close>\<close>

definition login_user :: "db \<Rightarrow> string \<Rightarrow> db" where
  "login_user s username' =
     (if username' \<in> set (users s) then s
      else s\<lparr>users := users s @ [username']\<rparr>)"

text \<open>
  The \<open>INSERT\<close> of \<open>add_expense\<close> names no \<open>id\<close>. The column is an
  \<^verbatim>\<open>INTEGER PRIMARY KEY\<close> declared without \<^verbatim>\<open>AUTOINCREMENT\<close>, so SQLite fills it with
  one more than the largest id currently in the table, and with 1 when the table is empty.
  The values are values that \<open>sqlite3\<close> binds: texts, and for the amount a float or an
  integer of 64 bits (with a larger integer \<open>execute\<close> raises before anything is
  stored; such a call is not modelled).
\<close>

definition next_rowid :: "'d expense list \<Rightarrow> int" where
  "next_rowid rows = (if rows = [] then 1 else Max (set (map e_id rows)) + 1)"

definition add_expense :: "db \<Rightarrow> string \<Rightarrow> string \<Rightarrow> string \<Rightarrow> rat \<Rightarrow> string \<Rightarrow> db" where
  "add_expense s username' date' category' amount' description' =
     s\<lparr>expenses := expenses s @
        [\<lparr>e_id = next_rowid (expenses s), e_username = username', e_date = date',
          e_category = category', e_amount = amount', e_description = description'\<rparr>]\<rparr>"

text \<open>\<^verbatim>\<open>SELECT * FROM expenses WHERE username = ?\<close>\<close>

definition get_expenses :: "db \<Rightarrow> string \<Rightarrow> string expense list" where
  "get_expenses s username' = filter (\<lambda>r. e_username r = username') (expenses s)"

text \<open>\<^verbatim>\<open>DELETE FROM expenses WHERE id = ?\<close>\<close>

definition delete_expense :: "db \<Rightarrow> int \<Rightarrow> db" where
  "delete_expense s expense_id = s\<lparr>expenses := filter (\<lambda>r. e_id r \<noteq> expense_id) (expenses s)\<rparr>"

text \<open>
  \<^verbatim>\<open>INSERT OR REPLACE INTO budget (username, category, monthly_limit) VALUES (?, ?, ?)\<close>:
  the row that conflicts on the primary key \<open>(username, category)\<close> is deleted, then
  the new row is inserted.
\<close>

definition same_key :: "string \<Rightarrow> string \<Rightarrow> budget_row \<Rightarrow> bool" where
  "same_key username' category' r \<longleftrightarrow> b_username r = username' \<and> b_category r = category'"

definition set_budget :: "db \<Rightarrow> string \<Rightarrow> string \<Rightarrow> rat \<Rightarrow> db" where
  "set_budget s username' category' limit =
     s\<lparr>budget := filter (\<lambda>r. \<not> same_key username' category' r) (budget s) @
        [\<lparr>b_username = username', b_category = category', monthly_limit = limit\<rparr>]\<rparr>"

text \<open>
  \<^verbatim>\<open>SELECT * FROM budget WHERE username = ?\<close>. SQLite answers this query through the
  index of the primary key \<open>(username, category)\<close>, so the rows of a user come in the
  order of their categories (bytewise, as strings are ordered here).
\<close>

definition get_budget :: "db \<Rightarrow> string \<Rightarrow> budget_row list" where
  "get_budget s username' =
     sort_key b_category (filter (\<lambda>r. b_username r = username') (budget s))"

text \<open>The primary keys of the schema, as invariants of a database state.\<close>

definition expense_ids :: "db \<Rightarrow> int list" where
  "expense_ids s = map e_id (expenses s)"

definition budget_keys :: "db \<Rightarrow> (string \<times> string) list" where
  "budget_keys s = map (\<lambda>r. (b_username r, b_category r)) (budget s)"

subsection \<open>Sequences of store operations\<close>

datatype store_op =
    AddExpense string string string rat string
  | DeleteExpense int
  | SetBudget string string rat
  | LoginUser string

fun apply_op :: "db \<Rightarrow> store_op \<Rightarrow> db" where
  "apply_op s (AddExpense u d c a desc) = add_expense s u d c a desc"
| "apply_op s (DeleteExpense i) = delete_expense s i"
| "apply_op s (SetBudget u c l) = set_budget s u c l"
| "apply_op s (LoginUser u) = login_user s u"

definition run_ops :: "db \<Rightarrow> store_op list \<Rightarrow> db" where
  "run_ops s ops = foldl apply_op s ops"

text \<open>
  For the statements about runs: the ids that the \<open>add_expense\<close> calls of a run are
  given, in order; the budget rows stored under one key; and the limit that the last
  \<open>set_budget\<close> of a run sets for a key, if the run has one.
\<close>

fun assigned_ids :: "db \<Rightarrow> store_op list \<Rightarrow> int list" where
  "assigned_ids s [] = []"
| "assigned_ids s (x # ops) =
     (case x of AddExpense u d c a desc \<Rightarrow> [next_rowid (expenses s)] | _ \<Rightarrow> [])
       @ assigned_ids (apply_op s x) ops"

definition budget_entries :: "db \<Rightarrow> string \<Rightarrow> string \<Rightarrow> budget_row list" where
  "budget_entries s u c = filter (same_key u c) (budget s)"

fun last_set :: "store_op list \<Rightarrow> string \<Rightarrow> string \<Rightarrow> rat option" where
  "last_set [] u c = None"
| "last_set (x # ops) u c =
     (case last_set ops u c of
        Some l \<Rightarrow> Some l
      | None \<Rightarrow>
          (case x of
             SetBudget u' c' l \<Rightarrow> if u' = u \<and> c' = c then Some l else None
           | _ \<Rightarrow> None))"

subsection \<open>The CSV import of \<open>main\<close>\<close>

text \<open>
  The Import/Export branch reads the uploaded file with \<open>pd.read_csv\<close> and passes
  every row to \<open>add_expense\<close> as it is:
  \<^verbatim>\<open>for _, row in new_df.iterrows():
      add_expense(username, row['date'], row['category'], row['amount'], row['description'])\<close>
  A row here has a text in \<open>date\<close>, \<open>category\<close> and \<open>description\<close> and a finite
  number in \<open>amount\<close>. Nothing between \<open>read_csv\<close> and \<open>add_expense\<close> looks at
  the cells.
\<close>

record csv_row =
  c_date :: string
  c_category :: string
  c_amount :: rat
  c_description :: string

definition import_expenses :: "db \<Rightarrow> string \<Rightarrow> csv_row list \<Rightarrow> db" where
  "import_expenses s username' new_df =
     foldl (\<lambda>s' row. add_expense s' username' (c_date row) (c_category row) (c_amount row)
              (c_description row)) s new_df"

section \<open>Binary64 arithmetic\<close>

text \<open>
  The \<open>amount\<close> and \<open>monthly_limit\<close> columns reach pandas as float64, and every sum,
  quotient and comparison of the dashboard is a binary64 operation. A float is a rational
  that binary64 represents, an infinity, or NaN. The sign of zero is left out: no
  comparison below depends on it.
\<close>

datatype fval = Fin rat | PInf | NInf | NaN

text \<open>
  Rounding to nearest, ties to even: 53 significant bits, the exponent of the leading bit
  between \<open>-1022\<close> and \<open>1023\<close>, subnormal numbers below, an infinity from
  \<open>2 ^ 1024\<close> on. \<open>ilog2 a\<close> is the exponent of the leading bit of a positive
  \<open>a\<close>, \<open>rne\<close> rounds to the nearest integer with ties to even.
\<close>

definition pow2 :: "int \<Rightarrow> rat" where
  "pow2 e = (if 0 \<le> e then 2 ^ nat e else 1 / 2 ^ nat (- e))"

definition ilog2 :: "rat \<Rightarrow> int" where
  "ilog2 a = (if 1 \<le> a then bitlen \<lfloor>a\<rfloor> - 1 else - bitlen (\<lceil>1 / a\<rceil> - 1))"

definition rne :: "rat \<Rightarrow> int" where
  "rne m =
     (let f = \<lfloor>m\<rfloor>; d = m - of_int f
      in if d < 1 / 2 then f
         else if 1 / 2 < d then f + 1
         else if even f then f
         else f + 1)"

definition fl :: "rat \<Rightarrow> fval" where
  "fl x =
     (if x = 0 then Fin 0
      else
        let a = \<bar>x\<bar>;
            q = pow2 (max (ilog2 a) (- 1022) - 52);
            r = of_int (rne (a / q)) * q
        in if pow2 1024 \<le> r then (if 0 < x then PInf else NInf)
           else Fin (if 0 < x then r else - r))"

fun fneg :: "fval \<Rightarrow> fval" where
  "fneg (Fin x) = Fin (- x)"
| "fneg PInf = NInf"
| "fneg NInf = PInf"
| "fneg NaN = NaN"

fun fadd :: "fval \<Rightarrow> fval \<Rightarrow> fval" where
  "fadd (Fin a) (Fin b) = fl (a + b)"
| "fadd NaN y = NaN"
| "fadd x NaN = NaN"
| "fadd PInf NInf = NaN"
| "fadd NInf PInf = NaN"
| "fadd PInf y = PInf"
| "fadd x PInf = PInf"
| "fadd NInf y = NInf"
| "fadd x NInf = NInf"

definition fsub :: "fval \<Rightarrow> fval \<Rightarrow> fval" where
  "fsub x y = fadd x (fneg y)"

text \<open>
  Division of float64 columns raises nothing: a finite number over zero is an infinity
  of its sign, zero over zero is NaN.
\<close>

fun fdiv :: "fval \<Rightarrow> fval \<Rightarrow> fval" where
  "fdiv (Fin a) (Fin b) =
     (if b \<noteq> 0 then fl (a / b)
      else if 0 < a then PInf
      else if a < 0 then NInf
      else NaN)"
| "fdiv NaN y = NaN"
| "fdiv x NaN = NaN"
| "fdiv (Fin a) y = Fin 0"
| "fdiv PInf (Fin b) = (if b < 0 then NInf else PInf)"
| "fdiv NInf (Fin b) = (if b < 0 then PInf else NInf)"
| "fdiv x y = NaN"

text \<open>Comparison with a finite number; every comparison with NaN is false.\<close>

fun fgt :: "fval \<Rightarrow> rat \<Rightarrow> bool" where
  "fgt (Fin x) c \<longleftrightarrow> c < x"
| "fgt PInf c \<longleftrightarrow> True"
| "fgt NInf c \<longleftrightarrow> False"
| "fgt NaN c \<longleftrightarrow> False"

fun fle :: "fval \<Rightarrow> rat \<Rightarrow> bool" where
  "fle (Fin x) c \<longleftrightarrow> x \<le> c"
| "fle PInf c \<longleftrightarrow> False"
| "fle NInf c \<longleftrightarrow> True"
| "fle NaN c \<longleftrightarrow> False"

text \<open>The value of the literal \<open>0.8\<close>: the float nearest to \<open>8 / 10\<close>.\<close>

definition lit_08 :: rat where
  "lit_08 = 3602879701896397 / 4503599627370496"

subsection \<open>The reductions of numpy and pandas\<close>

text \<open>
  \<open>Series.sum\<close> is numpy's \<open>add.reduce\<close> on a float64 array: the identity 0 plus
  the pairwise sum of the array. The pairwise sum adds fewer than 8 numbers one after
  the other from 0; up to 128 numbers it keeps 8 accumulators, one for each position
  modulo 8, adds them as a tree and then adds the remaining numbers one after the other;
  a longer array is cut in two at a multiple of 8 near the middle.
\<close>

function add8 :: "fval list \<Rightarrow> fval list \<Rightarrow> fval list \<times> fval list" where
  "add8 r xs =
     (if length xs < 8 then (r, xs)
      else add8 (map2 fadd r (take 8 xs)) (drop 8 xs))"
  by pat_completeness auto
termination
  by (relation "measure (\<lambda>(r, xs). length xs)") auto

declare add8.simps [simp del]

fun tree8 :: "fval list \<Rightarrow> fval" where
  "tree8 [r0, r1, r2, r3, r4, r5, r6, r7] =
     fadd (fadd (fadd r0 r1) (fadd r2 r3)) (fadd (fadd r4 r5) (fadd r6 r7))"
| "tree8 r = NaN"

definition block_sum :: "fval list \<Rightarrow> fval" where
  "block_sum xs =
     (case add8 (take 8 xs) (drop 8 xs) of
        (r, rest) \<Rightarrow> foldl fadd (tree8 r) rest)"

function pairwise_sum :: "fval list \<Rightarrow> fval" where
  "pairwise_sum xs =
     (if length xs < 8 then foldl fadd (Fin 0) xs
      else if length xs \<le> 128 then block_sum xs
      else
        fadd (pairwise_sum (take (length xs div 2 - length xs div 2 mod 8) xs))
             (pairwise_sum (drop (length xs div 2 - length xs div 2 mod 8) xs)))"
  by pat_completeness auto
termination
  by (relation "measure length") auto

declare pairwise_sum.simps [simp del]

definition np_sum :: "fval list \<Rightarrow> fval" where
  "np_sum xs = fadd (Fin 0) (pairwise_sum xs)"

text \<open>
  \<open>groupby(...).sum()\<close> adds the values of a group in row order with Kahan
  compensation (\<open>group_sum\<close> of pandas):
  \<^verbatim>\<open>y = val - compensation; t = sumx + y; compensation = t - sumx - y;
  if compensation != compensation: compensation = 0; sumx = t\<close>
  and skips a value that is NaN.
\<close>

fun kahan_step :: "fval \<times> fval \<Rightarrow> fval \<Rightarrow> fval \<times> fval" where
  "kahan_step (sumx, compensation) val =
     (if val = NaN then (sumx, compensation)
      else
        let y = fsub val compensation;
            t = fadd sumx y;
            c = fsub (fsub t sumx) y
        in (t, if c = NaN then Fin 0 else c))"

declare kahan_step.simps [simp del]

definition group_sum :: "fval list \<Rightarrow> fval" where
  "group_sum vals = fst (foldl kahan_step (Fin 0, Fin 0) vals)"

text \<open>
  \<open>Series.mean\<close> leaves NaN values out: it sums the values with 0 in the place of
  every NaN and divides by the number of values that are not NaN; with no such value
  the mean is NaN.
\<close>

definition mean :: "fval list \<Rightarrow> fval" where
  "mean xs =
     (if filter (\<lambda>x. x \<noteq> NaN) xs = [] then NaN
      else fdiv (np_sum (map (\<lambda>x. if x = NaN then Fin 0 else x) xs))
             (fl (of_nat (length (filter (\<lambda>x. x \<noteq> NaN) xs)))))"

section \<open>The dashboard of \<open>main\<close>\<close>

text \<open>
  \<open>pd.to_datetime\<close> turns the TEXT of the \<open>date\<close> column into timestamps. A
  timestamp is a calendar date and a time of day; \<open>.dt.date\<close> keeps the calendar date,
  \<open>.dt.strftime('%Y-%m')\<close> the year and the month (the two strings are equal exactly
  when year and month are).
\<close>

record timestamp =
  ts_year :: nat
  ts_month :: nat
  ts_day :: nat
  ts_time :: nat

definition dt_date :: "timestamp \<Rightarrow> nat \<times> nat \<times> nat" where
  "dt_date t = (ts_year t, ts_month t, ts_day t)"

definition strftime_Ym :: "timestamp \<Rightarrow> nat \<times> nat" where
  "strftime_Ym t = (ts_year t, ts_month t)"

text \<open>
  The parser of pandas is library code and reads the column as a whole (it may settle
  on one format for all cells), so the conversion of a column of texts is a parameter
  \<open>conv\<close>, \<open>None\<close> where pandas raises. It gives one timestamp for each cell.
\<close>

definition to_datetime ::
    "(string list \<Rightarrow> timestamp list option) \<Rightarrow> string expense list \<Rightarrow> timestamp expense list option" where
  "to_datetime conv rows =
     (case conv (map e_date rows) of
        None \<Rightarrow> None
      | Some ts \<Rightarrow>
          if length ts = length rows
          then Some (map2 (\<lambda>r t. \<lparr>e_id = e_id r, e_username = e_username r, e_date = t,
                                   e_category = e_category r, e_amount = e_amount r,
                                   e_description = e_description r\<rparr>) rows ts)
          else None)"

text \<open>The \<open>amount\<close> and \<open>monthly_limit\<close> columns as pandas reads them.\<close>

definition amount_f :: "'d expense \<Rightarrow> fval" where
  "amount_f r = fl (e_amount r)"

definition limit_f :: "budget_row \<Rightarrow> fval" where
  "limit_f b = fl (monthly_limit b)"

text \<open>
  \<open>rows.groupby(key)['amount'].sum()\<close>: one entry for each distinct key, in the order
  of the keys, holding the compensated sum of the amounts of the rows with that key, in
  row order.
\<close>

definition groupby_sum :: "('d expense \<Rightarrow> 'k::linorder) \<Rightarrow> 'd expense list \<Rightarrow> ('k \<times> fval) list" where
  "groupby_sum key rows =
     map (\<lambda>k. (k, group_sum (map amount_f (filter (\<lambda>r. key r = k) rows))))
       (sort (remdups (map key rows)))"

definition month_expenses :: "nat \<times> nat \<Rightarrow> timestamp expense list \<Rightarrow> timestamp expense list" where
  "month_expenses this_month rows = filter (\<lambda>r. strftime_Ym (e_date r) = this_month) rows"

definition total_spent :: "timestamp expense list \<Rightarrow> fval" where
  "total_spent month_rows = np_sum (map amount_f month_rows)"

definition daily_avg :: "timestamp expense list \<Rightarrow> fval" where
  "daily_avg month_rows = mean (map snd (groupby_sum (\<lambda>r. dt_date (e_date r)) month_rows))"

definition spent_by_cat :: "timestamp expense list \<Rightarrow> (string \<times> fval) list" where
  "spent_by_cat month_rows = groupby_sum e_category month_rows"

text \<open>
  \<open>pd.merge(budget_df, spent_by_cat, on='category', how='left').fillna(0)\<close>: one row
  per budget row, in the order of \<open>budget_df\<close>, with the amount spent in its category;
  \<open>fillna\<close> puts 0 where the category has no expense this month, and where the amount
  is NaN.
\<close>

definition merged :: "budget_row list \<Rightarrow> (string \<times> fval) list \<Rightarrow> (budget_row \<times> fval) list" where
  "merged budget_df spent =
     map (\<lambda>b. (b, case map_of spent (b_category b) of
                     None \<Rightarrow> Fin 0
                   | Some a \<Rightarrow> if a = NaN then Fin 0 else a)) budget_df"

definition status :: "budget_row \<times> fval \<Rightarrow> fval" where
  "status row = fdiv (snd row) (limit_f (fst row))"

text \<open>
  The loop over \<open>merged\<close> shows \<open>st.warning\<close> ("Over budget") when the status exceeds
  1, \<open>st.info\<close> ("Almost at limit") when it exceeds 0.8, and nothing otherwise: the
  tiers OVER, WARNING and OK.
\<close>

datatype tier = OVER | WARNING | OK

definition alert :: "budget_row \<times> fval \<Rightarrow> tier" where
  "alert row =
     (if fgt (status row) 1 then OVER
      else if fgt (status row) lit_08 then WARNING
      else OK)"

definition alerts :: "budget_row list \<Rightarrow> timestamp expense list \<Rightarrow> (budget_row \<times> tier) list" where
  "alerts budget_df month_rows =
     (if budget_df = [] then []
      else map (\<lambda>row. (fst row, alert row)) (merged budget_df (spent_by_cat month_rows)))"

text \<open>
  What the Dashboard branch of \<open>main\<close> does for a user: the notice "No data yet" when
  the user has no expense at all; the exception of \<open>pd.to_datetime\<close>; or the two
  metrics and the budget alerts.
\<close>

record metrics =
  m_total :: fval
  m_daily_avg :: fval
  m_alerts :: "(budget_row \<times> tier) list"

datatype view = NoDataYet | ToDatetimeRaised | Shown metrics

definition dashboard ::
    "(string list \<Rightarrow> timestamp list option) \<Rightarrow> nat \<times> nat \<Rightarrow> db \<Rightarrow> string \<Rightarrow> view" where
  "dashboard conv this_month s username' =
     (let rows = get_expenses s username' in
      if rows = [] then NoDataYet
      else
        (case to_datetime conv rows of
           None \<Rightarrow> ToDatetimeRaised
         | Some rows' \<Rightarrow>
             (let month_rows = month_expenses this_month rows' in
              Shown \<lparr>m_total = total_spent month_rows,
                     m_daily_avg = daily_avg month_rows,
                     m_alerts = alerts (get_budget s username') month_rows\<rparr>)))"

section \<open>Notions of the specification\<close>

text \<open>
  The expenses of a month; the ratio of a budget row, from the amount spent in its
  category (\<open>spend_by_category.get(category, 0)\<close>) and its limit; and the tier of a
  ratio in the words of the specification.
\<close>

definition in_month :: "nat \<times> nat \<Rightarrow> timestamp expense \<Rightarrow> bool" where
  "in_month this_month r \<longleftrightarrow> (ts_year (e_date r), ts_month (e_date r)) = this_month"

definition ratio :: "timestamp expense list \<Rightarrow> budget_row \<Rightarrow> fval" where
  "ratio month_rows b =
     fdiv (case map_of (spent_by_cat month_rows) (b_category b) of None \<Rightarrow> Fin 0 | Some a \<Rightarrow> a)
       (limit_f b)"

definition spec_tier :: "fval \<Rightarrow> tier" where
  "spec_tier r =
     (if fgt r 1 then OVER
      else if fgt r lit_08 \<and> fle r 1 then WARNING
      else OK)"

text \<open>
  Amounts on which no binary64 addition rounds: whole numbers whose magnitudes add up to
  at most \<open>2 ^ 53\<close>.
\<close>

definition whole_amounts :: "'d expense list \<Rightarrow> bool" where
  "whole_amounts rows \<longleftrightarrow>
     (\<forall>r\<in>set rows. e_amount r = of_int \<lfloor>e_amount r\<rfloor>)
     \<and> sum_list (map (\<lambda>r. \<bar>e_amount r\<bar>) rows) \<le> 2 ^ 53"

text \<open>For the proofs: the value and the magnitude of a float, and floats that are whole.\<close>

fun fv :: "fval \<Rightarrow> rat" where
  "fv (Fin r) = r"
| "fv x = 0"

definition mg :: "fval \<Rightarrow> rat" where
  "mg x = \<bar>fv x\<bar>"

definition whole :: "fval \<Rightarrow> bool" where
  "whole x \<longleftrightarrow> (\<exists>z::int. x = Fin (of_int z))"

definition tot :: "fval list \<Rightarrow> rat" where
  "tot xs = sum_list (map fv xs)"

definition magn :: "fval list \<Rightarrow> rat" where
  "magn xs = sum_list (map mg xs)"

definition wholes :: "fval list \<Rightarrow> bool" where
  "wholes xs \<longleftrightarrow> (\<forall>x\<in>set xs. whole x)"

subsection \<open>Sample data\<close>

text \<open>
  Three databases of one user. The first has three expenses in May 2024, two of them on
  the same day, one expense in April, and four budgets; \<open>sample_rows\<close> are its
  expenses with the dates parsed, \<open>may_rows\<close> those of May. The second has one
  expense, in April. The third has three expenses on one day of May, of \<open>2 ^ 53\<close>, 1
  and 1. All dates are in the format the Add Expense form writes; \<open>sample_conv\<close> reads
  the three date columns.
\<close>

definition day :: "nat \<Rightarrow> nat \<Rightarrow> nat \<Rightarrow> timestamp" where
  "day y m d = \<lparr>ts_year = y, ts_month = m, ts_day = d, ts_time = 0\<rparr>"

definition sample_conv :: "string list \<Rightarrow> timestamp list option" where
  "sample_conv =
     [[''2024-05-01'', ''2024-05-02'', ''2024-05-01'', ''2024-04-30''] \<mapsto>
        [day 2024 5 1, day 2024 5 2, day 2024 5 1, day 2024 4 30],
      [''2024-04-30''] \<mapsto> [day 2024 4 30],
      [''2024-05-01'', ''2024-05-01'', ''2024-05-01''] \<mapsto>
        [day 2024 5 1, day 2024 5 1, day 2024 5 1]]"

definition sample_db :: db where
  "sample_db = run_ops init_db
     [AddExpense ''alice'' ''2024-05-01'' ''Food'' 100 ''lunch'',
      AddExpense ''alice'' ''2024-05-02'' ''Food'' 50 ''snack'',
      AddExpense ''alice'' ''2024-05-01'' ''Transport'' 20 ''bus'',
      AddExpense ''alice'' ''2024-04-30'' ''Health'' 35 ''pharmacy'',
      SetBudget ''alice'' ''Food'' 150,
      SetBudget ''alice'' ''Transport'' 10,
      SetBudget ''alice'' ''Entertainment'' 50,
      SetBudget ''alice'' ''Health'' 40]"

definition sample_rows :: "timestamp expense list" where
  "sample_rows =
     [\<lparr>e_id = 1, e_username = ''alice'', e_date = day 2024 5 1,
        e_category = ''Food'', e_amount = 100, e_description = ''lunch''\<rparr>,
      \<lparr>e_id = 2, e_username = ''alice'', e_date = day 2024 5 2,
        e_category = ''Food'', e_amount = 50, e_description = ''snack''\<rparr>,
      \<lparr>e_id = 3, e_username = ''alice'', e_date = day 2024 5 1,
        e_category = ''Transport'', e_amount = 20, e_description = ''bus''\<rparr>,
      \<lparr>e_id = 4, e_username = ''alice'', e_date = day 2024 4 30,
        e_category = ''Health'', e_amount = 35, e_description = ''pharmacy''\<rparr>]"

definition may_rows :: "timestamp expense list" where
  "may_rows = take 3 sample_rows"

definition april_db :: db where
  "april_db = add_expense init_db ''alice'' ''2024-04-30'' ''Health'' 35 ''pharmacy''"

definition drift_db :: db where
  "drift_db = run_ops init_db
     [AddExpense ''alice'' ''2024-05-01'' ''Food'' 9007199254740992 ''deposit'',
      AddExpense ''alice'' ''2024-05-01'' ''Food'' 1 ''stamp'',
      AddExpense ''alice'' ''2024-05-01'' ''Food'' 1 ''stamp'']"

definition drift_rows :: "timestamp expense list" where
  "drift_rows =
     [\<lparr>e_id = 1, e_username = ''alice'', e_date = day 2024 5 1,
        e_category = ''Food'', e_amount = 9007199254740992, e_description = ''deposit''\<rparr>,
      \<lparr>e_id = 2, e_username = ''alice'', e_date = day 2024 5 1,
        e_category = ''Food'', e_amount = 1, e_description = ''stamp''\<rparr>,
      \<lparr>e_id = 3, e_username = ''alice'', e_date = day 2024 5 1,
        e_category = ''Food'', e_amount = 1, e_description = ''stamp''\<rparr>]"

section \<open>Deleting an expense\<close>

lemma delete_expense_users [simp]: "users (delete_expense s i) = users s"
  by (simp add: delete_expense_def)

lemma delete_expense_budget [simp]: "budget (delete_expense s i) = budget s"
  by (simp add: delete_expense_def)

text \<open>
  Claim C9. Deleting an id that no stored expense carries changes nothing: the function
  has no failing branch, and the database it returns is the database it was given.
\<close>

theorem delete_expense_absent_noop:
  "expense_id \<notin> set (expense_ids s) \<Longrightarrow> delete_expense s expense_id = s"
proof -
  assume absent: "expense_id \<notin> set (expense_ids s)"
  have "filter (\<lambda>r. e_id r \<noteq> expense_id) (expenses s) = expenses s"
    using absent by (auto simp: expense_ids_def filter_id_conv)
  then show ?thesis by (simp add: delete_expense_def)
qed

theorem delete_expense_absent_noop_witness:
  "(7::int) \<notin> set (expense_ids (add_expense init_db ''alice'' ''2024-05-01'' ''Food'' 100 ''lunch''))
   \<and> delete_expense (add_expense init_db ''alice'' ''2024-05-01'' ''Food'' 100 ''lunch'') 7
       = add_expense init_db ''alice'' ''2024-05-01'' ''Food'' 100 ''lunch''"
  using delete_expense_absent_noop
    [of 7 "add_expense init_db ''alice'' ''2024-05-01'' ''Food'' 100 ''lunch''"]
  by (simp add: expense_ids_def add_expense_def init_db_def next_rowid_def)

lemma filter_absent: "\<forall>x\<in>set xs. f x \<noteq> i \<Longrightarrow> filter (\<lambda>x. f x \<noteq> i) xs = xs"
  by (induction xs) auto

lemma filter_remove1_id:
  "distinct (map f xs) \<Longrightarrow> r \<in> set xs \<Longrightarrow> filter (\<lambda>x. f x \<noteq> f r) xs = remove1 r xs"
proof (induction xs)
  case Nil
  then show ?case by simp
next
  case (Cons x xs)
  show ?case
  proof (cases "x = r")
    case True
    with Cons.prems have "\<forall>y\<in>set xs. f y \<noteq> f r"
      by (metis distinct.simps(2) imageI list.simps(9) set_map)
    then have "filter (\<lambda>x. f x \<noteq> f r) xs = xs" by (rule filter_absent)
    with True show ?thesis by simp
  next
    case False
    with Cons.prems have "r \<in> set xs" by simp
    moreover from Cons.prems have "distinct (map f xs)" by simp
    ultimately have IH: "filter (\<lambda>x. f x \<noteq> f r) xs = remove1 r xs"
      by (rule Cons.IH[rotated])
    from Cons.prems \<open>r \<in> set xs\<close> have "f x \<noteq> f r"
      by (metis distinct.simps(2) imageI list.simps(9) set_map)
    with IH False show ?thesis by simp
  qed
qed

text \<open>
  Claim C10. \<open>delete_expense\<close> looks at the id only. In a database whose expense ids
  are distinct (the primary key), deleting the id of a stored row \<open>r\<close> removes that
  row and no other, whoever its owner is, and the users and budget tables stay as they
  were.
\<close>

theorem delete_expense_removes_exactly:
  assumes "distinct (expense_ids s)" and "r \<in> set (expenses s)"
  shows "expenses (delete_expense s (e_id r)) = remove1 r (expenses s)
       \<and> set (expenses (delete_expense s (e_id r))) = set (expenses s) - {r}
       \<and> users (delete_expense s (e_id r)) = users s
       \<and> budget (delete_expense s (e_id r)) = budget s"
proof -
  from assms have d: "distinct (map e_id (expenses s))" by (simp add: expense_ids_def)
  then have dr: "distinct (expenses s)" by (simp add: distinct_map)
  have "filter (\<lambda>x. e_id x \<noteq> e_id r) (expenses s) = remove1 r (expenses s)"
    using d assms(2) by (rule filter_remove1_id)
  then have e: "expenses (delete_expense s (e_id r)) = remove1 r (expenses s)"
    by (simp add: delete_expense_def)
  moreover have "set (remove1 r (expenses s)) = set (expenses s) - {r}"
    using dr by simp
  ultimately show ?thesis by simp
qed

theorem delete_expense_removes_exactly_witness:
  "distinct (expense_ids (add_expense (add_expense init_db ''alice'' ''2024-05-01'' ''Food'' 100 ''lunch'')
       ''bob'' ''2024-05-02'' ''Transport'' 20 ''bus''))
   \<and> \<lparr>e_id = 2, e_username = ''bob'', e_date = ''2024-05-02'', e_category = ''Transport'',
       e_amount = 20, e_description = ''bus''\<rparr>
      \<in> set (expenses (add_expense (add_expense init_db ''alice'' ''2024-05-01'' ''Food'' 100 ''lunch'')
           ''bob'' ''2024-05-02'' ''Transport'' 20 ''bus''))
   \<and> expenses (delete_expense (add_expense (add_expense init_db ''alice'' ''2024-05-01'' ''Food'' 100 ''lunch'')
           ''bob'' ''2024-05-02'' ''Transport'' 20 ''bus'') 2)
      = [\<lparr>e_id = 1, e_username = ''alice'', e_date = ''2024-05-01'', e_category = ''Food'',
           e_amount = 100, e_description = ''lunch''\<rparr>]"
  using delete_expense_removes_exactly
    [of "add_expense (add_expense init_db ''alice'' ''2024-05-01'' ''Food'' 100 ''lunch'')
           ''bob'' ''2024-05-02'' ''Transport'' 20 ''bus''"
        "\<lparr>e_id = 2, e_username = ''bob'', e_date = ''2024-05-02'', e_category = ''Transport'',
           e_amount = 20, e_description = ''bus''\<rparr>"]
  by (simp add: expense_ids_def add_expense_def init_db_def next_rowid_def)

section \<open>Users as partitions\<close>

text \<open>
  Claim C8. For two distinct usernames \<open>A\<close> and \<open>B\<close>, an \<open>add_expense\<close>, a
  \<open>set_budget\<close> or a \<open>login_user\<close> for \<open>A\<close> leaves what \<open>get_expenses\<close> and
  \<open>get_budget\<close> return for \<open>B\<close> unchanged, and \<open>get_expenses\<close> for \<open>A\<close>
  returns only rows whose owner is \<open>A\<close>.
\<close>

theorem users_are_partitions:
  assumes "A \<noteq> B"
  shows "get_expenses (add_expense s A d c a desc) B = get_expenses s B
       \<and> get_budget (add_expense s A d c a desc) B = get_budget s B
       \<and> get_expenses (set_budget s A c l) B = get_expenses s B
       \<and> get_budget (set_budget s A c l) B = get_budget s B
       \<and> get_expenses (login_user s A) B = get_expenses s B
       \<and> get_budget (login_user s A) B = get_budget s B
       \<and> (\<forall>r \<in> set (get_expenses s A). e_username r = A)"
proof -
  have e: "filter (\<lambda>r. b_username r = B) (budget (set_budget s A c l)) =
      filter (\<lambda>r. b_username r = B) (budget s)"
    using assms by (auto simp: set_budget_def same_key_def intro: filter_cong)
  have "get_budget (set_budget s A c l) B = get_budget s B"
    unfolding get_budget_def e by (rule refl)
  then show ?thesis
    using assms
    by (auto simp: get_expenses_def get_budget_def add_expense_def set_budget_def
        login_user_def)
qed

theorem users_are_partitions_witness:
  "''alice'' \<noteq> ''bob''
   \<and> get_expenses (add_expense
        (set_budget (add_expense (add_expense init_db ''alice'' ''2024-04-30'' ''Health'' 35 ''pharmacy'')
           ''bob'' ''2024-05-02'' ''Transport'' 20 ''bus'') ''bob'' ''Food'' 50)
        ''alice'' ''2024-05-01'' ''Food'' 100 ''lunch'') ''bob''
      = [\<lparr>e_id = 2, e_username = ''bob'', e_date = ''2024-05-02'', e_category = ''Transport'',
           e_amount = 20, e_description = ''bus''\<rparr>]
   \<and> get_budget (set_budget
        (set_budget (add_expense (add_expense init_db ''alice'' ''2024-04-30'' ''Health'' 35 ''pharmacy'')
           ''bob'' ''2024-05-02'' ''Transport'' 20 ''bus'') ''bob'' ''Food'' 50)
        ''alice'' ''Food'' 75) ''bob''
      = [\<lparr>b_username = ''bob'', b_category = ''Food'', monthly_limit = 50\<rparr>]
   \<and> map e_username (get_expenses
        (set_budget (add_expense (add_expense init_db ''alice'' ''2024-04-30'' ''Health'' 35 ''pharmacy'')
           ''bob'' ''2024-05-02'' ''Transport'' 20 ''bus'') ''bob'' ''Food'' 50)
        ''alice'') = [''alice'']"
  using users_are_partitions [of "''alice''" "''bob''"
      "set_budget (add_expense (add_expense init_db ''alice'' ''2024-04-30'' ''Health'' 35 ''pharmacy'')
         ''bob'' ''2024-05-02'' ''Transport'' 20 ''bus'') ''bob'' ''Food'' 50"
      "''2024-05-01''" "''Food''" 100 "''lunch''" 75]
  by (simp add: get_expenses_def get_budget_def add_expense_def set_budget_def init_db_def
      next_rowid_def same_key_def)

section \<open>Budgets: last write wins\<close>

lemma run_ops_Cons: "run_ops s (x # ops) = run_ops (apply_op s x) ops"
  by (simp add: run_ops_def)

lemma budget_keys_set_budget:
  "distinct (budget_keys s) \<Longrightarrow> distinct (budget_keys (set_budget s u c l))"
  by (auto simp: budget_keys_def set_budget_def same_key_def distinct_map_filter)

lemma budget_keys_apply_op:
  "distinct (budget_keys s) \<Longrightarrow> distinct (budget_keys (apply_op s x))"
  by (cases x)
    (auto simp: budget_keys_set_budget,
     auto simp: budget_keys_def add_expense_def delete_expense_def login_user_def)

lemma budget_keys_run_ops:
  "distinct (budget_keys s) \<Longrightarrow> distinct (budget_keys (run_ops s ops))"
proof (induction ops arbitrary: s)
  case Nil
  then show ?case by (simp add: run_ops_def)
next
  case (Cons x ops)
  then show ?case by (simp add: run_ops_Cons budget_keys_apply_op)
qed

lemma budget_entries_set_budget:
  "budget_entries (set_budget s u' c' l) u c =
     (if u' = u \<and> c' = c then [\<lparr>b_username = u, b_category = c, monthly_limit = l\<rparr>]
      else budget_entries s u c)"
  by (auto simp: budget_entries_def set_budget_def same_key_def intro: filter_cong)

lemma budget_entries_apply_op:
  "budget_entries (apply_op s x) u c =
     (case x of
        SetBudget u' c' l \<Rightarrow>
          if u' = u \<and> c' = c then [\<lparr>b_username = u, b_category = c, monthly_limit = l\<rparr>]
          else budget_entries s u c
      | _ \<Rightarrow> budget_entries s u c)"
  by (cases x)
    (simp_all add: budget_entries_set_budget,
     simp_all add: budget_entries_def add_expense_def delete_expense_def login_user_def)

lemma budget_entries_run_ops:
  "budget_entries (run_ops s ops) u c =
     (case last_set ops u c of
        Some l \<Rightarrow> [\<lparr>b_username = u, b_category = c, monthly_limit = l\<rparr>]
      | None \<Rightarrow> budget_entries s u c)"
proof (induction ops arbitrary: s)
  case Nil
  then show ?case by (simp add: run_ops_def)
next
  case (Cons x ops)
  show ?case
    by (simp add: run_ops_Cons Cons.IH budget_entries_apply_op
        split: option.splits store_op.splits)
qed

lemma distinct_key_filter_le1:
  "distinct (map f xs) \<Longrightarrow> length (filter (\<lambda>x. f x = k) xs) \<le> 1"
proof (induction xs)
  case Nil
  then show ?case by simp
next
  case (Cons x xs)
  show ?case
  proof (cases "f x = k")
    case True
    with Cons.prems have "\<forall>y\<in>set xs. f y \<noteq> k" by (auto simp: image_iff)
    then have "filter (\<lambda>x. f x = k) xs = []" by (simp add: filter_empty_conv)
    with True show ?thesis by simp
  next
    case False
    with Cons show ?thesis by simp
  qed
qed

lemma distinct_keys_entries:
  "distinct (budget_keys s) \<Longrightarrow> length (budget_entries s u c) \<le> 1"
proof -
  assume d: "distinct (budget_keys s)"
  have "budget_entries s u c = filter (\<lambda>r. (b_username r, b_category r) = (u, c)) (budget s)"
    by (simp add: budget_entries_def same_key_def [abs_def])
  moreover have "length (filter (\<lambda>r. (b_username r, b_category r) = (u, c)) (budget s)) \<le> 1"
    using d unfolding budget_keys_def by (rule distinct_key_filter_le1)
  ultimately show ?thesis by simp
qed

text \<open>
  Claim C6. \<open>set_budget\<close> is a last-write-wins upsert. Start from a database whose
  budget keys \<open>(username, category)\<close> are distinct and run any sequence of store
  operations. Then the keys are still distinct, every key has at most one budget row, and
  the rows under a key \<open>(u, c)\<close> are: the single row with the limit of the last
  \<open>set_budget\<close> for \<open>(u, c)\<close> in the run when there is one, and otherwise exactly
  the rows the database had under that key before the run.
\<close>

theorem set_budget_last_write_wins:
  assumes "distinct (budget_keys s)"
  shows "distinct (budget_keys (run_ops s ops))
       \<and> length (budget_entries (run_ops s ops) u c) \<le> 1
       \<and> budget_entries (run_ops s ops) u c =
           (case last_set ops u c of
              Some l \<Rightarrow> [\<lparr>b_username = u, b_category = c, monthly_limit = l\<rparr>]
            | None \<Rightarrow> budget_entries s u c)"
proof -
  have keys: "distinct (budget_keys (run_ops s ops))"
    using assms by (rule budget_keys_run_ops)
  then have "length (budget_entries (run_ops s ops) u c) \<le> 1"
    by (rule distinct_keys_entries)
  with keys show ?thesis by (simp add: budget_entries_run_ops)
qed

theorem set_budget_last_write_wins_witness:
  "distinct (budget_keys (set_budget init_db ''bob'' ''Health'' 30))
   \<and> budget_entries (run_ops (set_budget init_db ''bob'' ''Health'' 30)
        [SetBudget ''alice'' ''Food'' 100, SetBudget ''bob'' ''Food'' 70,
         SetBudget ''alice'' ''Food'' 120]) ''alice'' ''Food''
      = [\<lparr>b_username = ''alice'', b_category = ''Food'', monthly_limit = 120\<rparr>]
   \<and> budget_entries (run_ops (set_budget init_db ''bob'' ''Health'' 30)
        [SetBudget ''alice'' ''Food'' 100, SetBudget ''bob'' ''Food'' 70,
         SetBudget ''alice'' ''Food'' 120]) ''bob'' ''Health''
      = [\<lparr>b_username = ''bob'', b_category = ''Health'', monthly_limit = 30\<rparr>]"
  using set_budget_last_write_wins [of "set_budget init_db ''bob'' ''Health'' 30"
        "[SetBudget ''alice'' ''Food'' 100, SetBudget ''bob'' ''Food'' 70,
         SetBudget ''alice'' ''Food'' 120]" "''alice''" "''Food''"]
    set_budget_last_write_wins [of "set_budget init_db ''bob'' ''Health'' 30"
        "[SetBudget ''alice'' ''Food'' 100, SetBudget ''bob'' ''Food'' 70,
         SetBudget ''alice'' ''Food'' 120]" "''bob''" "''Health''"]
  by (simp add: budget_keys_def budget_entries_def set_budget_def init_db_def same_key_def)

section \<open>Expense ids\<close>

lemma next_rowid_greater: "i \<in> set (map e_id rows) \<Longrightarrow> i < next_rowid rows"
proof -
  assume i: "i \<in> set (map e_id rows)"
  then have ne: "rows \<noteq> []" by auto
  have "i \<le> Max (set (map e_id rows))" using i by (intro Max_ge) auto
  with ne show ?thesis by (simp add: next_rowid_def)
qed

lemma ids_add_expense:
  "distinct (expense_ids s) \<Longrightarrow> distinct (expense_ids (add_expense s u d c a desc))"
  using next_rowid_greater [of "next_rowid (expenses s)" "expenses s"]
  by (auto simp: expense_ids_def add_expense_def)

lemma ids_apply_op:
  "distinct (expense_ids s) \<Longrightarrow> distinct (expense_ids (apply_op s x))"
  by (cases x)
    (simp_all add: ids_add_expense,
     simp_all add: expense_ids_def delete_expense_def set_budget_def login_user_def
       distinct_map_filter)

lemma ids_run_ops:
  "distinct (expense_ids s) \<Longrightarrow> distinct (expense_ids (run_ops s ops))"
proof (induction ops arbitrary: s)
  case Nil
  then show ?case by (simp add: run_ops_def)
next
  case (Cons x ops)
  then show ?case by (simp add: run_ops_Cons ids_apply_op)
qed

text \<open>
  Claim C7, as the specification states it, fails: an id is not always greater than
  every id assigned before it. Two expenses are added (ids 1 and 2), the second is
  deleted, and the next expense is given the id 2 again.
\<close>

theorem expense_id_reused_after_delete:
  "assigned_ids init_db
     [AddExpense ''alice'' ''2024-05-01'' ''Food'' 100 ''lunch'',
      AddExpense ''alice'' ''2024-05-02'' ''Food'' 50 ''snack'',
      DeleteExpense 2,
      AddExpense ''bob'' ''2024-05-03'' ''Transport'' 20 ''bus''] = [1, 2, 2]"
  by (simp add: init_db_def add_expense_def delete_expense_def next_rowid_def)

text \<open>
  Claim C7, amended. Start from a database whose expense ids are distinct and run any
  sequence of store operations. Then no two stored expenses share an id, and the id that
  the next \<open>add_expense\<close> assigns is greater than every id stored at that moment.
\<close>

theorem expense_ids_unique_and_fresh:
  assumes "distinct (expense_ids s)"
  shows "distinct (expense_ids (run_ops s ops))
       \<and> expense_ids (add_expense (run_ops s ops) u d c a desc) =
           expense_ids (run_ops s ops) @ [next_rowid (expenses (run_ops s ops))]
       \<and> (\<forall>i \<in> set (expense_ids (run_ops s ops)). i < next_rowid (expenses (run_ops s ops)))"
proof -
  have "distinct (expense_ids (run_ops s ops))"
    using assms by (rule ids_run_ops)
  moreover have "expense_ids (add_expense (run_ops s ops) u d c a desc) =
      expense_ids (run_ops s ops) @ [next_rowid (expenses (run_ops s ops))]"
    by (simp add: expense_ids_def add_expense_def)
  moreover have "\<forall>i \<in> set (expense_ids (run_ops s ops)). i < next_rowid (expenses (run_ops s ops))"
    unfolding expense_ids_def by (blast intro: next_rowid_greater)
  ultimately show ?thesis by blast
qed

theorem expense_ids_unique_and_fresh_witness:
  "distinct (expense_ids init_db)
   \<and> expense_ids (run_ops init_db
        [AddExpense ''alice'' ''2024-05-01'' ''Food'' 100 ''lunch'',
         AddExpense ''alice'' ''2024-05-02'' ''Food'' 50 ''snack'',
         DeleteExpense 1,
         AddExpense ''bob'' ''2024-05-03'' ''Transport'' 20 ''bus'']) = [2, 3]
   \<and> next_rowid (expenses (run_ops init_db
        [AddExpense ''alice'' ''2024-05-01'' ''Food'' 100 ''lunch'',
         AddExpense ''alice'' ''2024-05-02'' ''Food'' 50 ''snack'',
         DeleteExpense 1,
         AddExpense ''bob'' ''2024-05-03'' ''Transport'' 20 ''bus''])) = 4"
  using expense_ids_unique_and_fresh [of init_db
        "[AddExpense ''alice'' ''2024-05-01'' ''Food'' 100 ''lunch'',
         AddExpense ''alice'' ''2024-05-02'' ''Food'' 50 ''snack'',
         DeleteExpense 1,
         AddExpense ''bob'' ''2024-05-03'' ''Transport'' 20 ''bus'']"
        "''alice''" "''2024-05-04''" "''Food''" 1 "''tea''"]
  by (simp add: run_ops_def expense_ids_def init_db_def add_expense_def delete_expense_def
      next_rowid_def)

section \<open>Binary64 sums that do not round\<close>

lemma mg_nonneg: "0 \<le> mg x"
  by (simp add: mg_def)

lemma rne_of_int [simp]: "rne (of_int z) = z"
  by (simp add: rne_def)

lemma pow2_pos: "0 < pow2 e"
  by (simp add: pow2_def)

lemma fl_mag:
  fixes a :: int
  assumes a1: "1 \<le> a" and a53: "a \<le> 2 ^ 53"
  shows "of_int (rne (of_int a / pow2 (max (ilog2 (of_int a)) (- 1022) - 52))) *
           pow2 (max (ilog2 (of_int a)) (- 1022) - 52) = (of_int a :: rat)"
proof -
  define e where "e = bitlen a - 1"
  have il: "ilog2 (of_int a) = e"
  proof -
    have "(1::rat) \<le> of_int a" using a1 by simp
    then show ?thesis by (simp add: ilog2_def e_def)
  qed
  have b: "2 ^ nat (bitlen a - 1) \<le> a" "a < 2 ^ nat (bitlen a)"
    using bitlen_bounds [of a] a1 by auto
  have bl1: "1 \<le> bitlen a" using a1 by (simp add: bitlen_alt_def)
  have e0: "0 \<le> e" using bl1 by (simp add: e_def)
  have e53: "e \<le> 53"
  proof (rule ccontr)
    assume "\<not> e \<le> 53"
    then have "54 \<le> nat (bitlen a - 1)" by (simp add: e_def)
    then have "(2::int) ^ 54 \<le> 2 ^ nat (bitlen a - 1)" by (intro power_increasing) auto
    with b(1) a53 show False by simp
  qed
  have mx: "max e (- 1022) = e" using e0 by simp
  have ex: "\<exists>n::int. of_int a / pow2 (e - 52) = (of_int n :: rat)"
  proof (cases "e \<le> 52")
    case True
    then have "pow2 (e - 52) = 1 / 2 ^ nat (52 - e)"
      by (auto simp: pow2_def)
    then have "of_int a / pow2 (e - 52) = (of_int (a * 2 ^ nat (52 - e)) :: rat)" by simp
    then show ?thesis by blast
  next
    case False
    with e53 have e: "e = 53" by simp
    then have "nat (bitlen a - 1) = 53" by (simp add: e_def)
    with b(1) a53 have "a = 2 ^ 53" by simp
    moreover have "pow2 (e - 52) = 2" using e by (simp add: pow2_def)
    ultimately have "of_int a / pow2 (e - 52) = (of_int (2 ^ 52) :: rat)" by simp
    then show ?thesis by blast
  qed
  then obtain n :: int where n: "of_int a / pow2 (e - 52) = (of_int n :: rat)" by blast
  have "of_int (rne (of_int a / pow2 (e - 52))) = (of_int a / pow2 (e - 52) :: rat)"
    by (simp add: n)
  then have "of_int (rne (of_int a / pow2 (e - 52))) * pow2 (e - 52) = (of_int a :: rat)"
    using pow2_pos [of "e - 52"] by simp
  then show ?thesis by (simp only: il mx)
qed

lemma not_overflow:
  fixes a :: int
  assumes "a \<le> 2 ^ 53"
  shows "\<not> pow2 1024 \<le> (of_int a :: rat)"
proof -
  have "(of_int a :: rat) \<le> 2 ^ 53"
    using assms by (metis of_int_le_iff of_int_numeral of_int_power)
  also have "\<dots> < 2 ^ 1024" by (intro power_strict_increasing) auto
  finally show ?thesis by (simp add: pow2_def)
qed

lemma fl_of_int:
  assumes "\<bar>z\<bar> \<le> 2 ^ 53"
  shows "fl (of_int z) = Fin (of_int z)"
proof -
  consider "z = 0" | "0 < z" | "z < 0" by linarith
  then show ?thesis
  proof cases
    case 1
    then show ?thesis by (simp add: fl_def)
  next
    case 2
    then have a: "1 \<le> z" "z \<le> 2 ^ 53" using assms by auto
    have abs: "\<bar>(of_int z :: rat)\<bar> = of_int z" using 2 by simp
    have nz: "(of_int z :: rat) \<noteq> 0" and pz: "(0::rat) < of_int z" using 2 by auto
    show ?thesis
      unfolding fl_def Let_def abs
      using fl_mag [OF a] not_overflow [OF a(2)] nz pz by simp
  next
    case 3
    then have a: "1 \<le> - z" "- z \<le> 2 ^ 53" using assms by auto
    have abs: "\<bar>(of_int z :: rat)\<bar> = of_int (- z)" using 3 by simp
    have nz: "(of_int z :: rat) \<noteq> 0" and pz: "\<not> (0::rat) < of_int z" using 3 by auto
    show ?thesis
      unfolding fl_def Let_def abs
      using fl_mag [OF a] not_overflow [OF a(2)] nz pz by simp
  qed
qed

lemma fadd_whole:
  assumes "whole x" "whole y" "mg x + mg y \<le> 2 ^ 53"
  shows "fadd x y = Fin (fv x + fv y)" and "whole (fadd x y)"
    and "mg (fadd x y) \<le> mg x + mg y"
proof -
  from assms obtain a b :: int where x: "x = Fin (of_int a)" and y: "y = Fin (of_int b)"
    by (auto simp: whole_def)
  have "\<bar>(of_int (a + b) :: rat)\<bar> \<le> 2 ^ 53" using assms(3) x y by (simp add: mg_def)
  then have "\<bar>a + b\<bar> \<le> 2 ^ 53"
    by (metis of_int_abs of_int_le_iff of_int_numeral of_int_power)
  then have "fl (of_int (a + b)) = Fin (of_int (a + b))" by (rule fl_of_int)
  then have eq: "fadd x y = Fin (of_int (a + b))" by (simp add: x y)
  show "fadd x y = Fin (fv x + fv y)" using eq by (simp add: x y)
  show "whole (fadd x y)" unfolding whole_def eq by blast
  show "mg (fadd x y) \<le> mg x + mg y" using eq by (simp add: x y mg_def)
qed

lemma magn_nonneg: "0 \<le> magn xs"
  unfolding magn_def by (rule sum_list_nonneg) (auto simp: mg_nonneg)

lemma tot_simps [simp]: "tot [] = 0" "tot (x # xs) = fv x + tot xs" "tot (xs @ ys) = tot xs + tot ys"
  by (simp_all add: tot_def)

lemma magn_simps [simp]: "magn [] = 0" "magn (x # xs) = mg x + magn xs"
  "magn (xs @ ys) = magn xs + magn ys"
  by (simp_all add: magn_def)

lemma wholes_simps [simp]: "wholes []" "wholes (x # xs) \<longleftrightarrow> whole x \<and> wholes xs"
  "wholes (xs @ ys) \<longleftrightarrow> wholes xs \<and> wholes ys"
  by (auto simp: wholes_def)

lemma whole_zero: "whole (Fin 0)"
  unfolding whole_def by (metis of_int_0)

lemma mg_zero [simp]: "mg (Fin 0) = 0"
  by (simp add: mg_def)

lemma whole_Fin_fv: "whole x \<Longrightarrow> Fin (fv x) = x"
  by (auto simp: whole_def)

lemma whole_tot: "wholes xs \<Longrightarrow> whole (Fin (tot xs))"
proof (induction xs)
  case Nil
  then show ?case by (simp add: whole_zero)
next
  case (Cons x xs)
  then obtain a b :: int where "x = Fin (of_int a)" "Fin (tot xs) = Fin (of_int b)"
    by (auto simp: whole_def)
  then have "Fin (tot (x # xs)) = Fin (of_int (a + b))" by simp
  then show ?case unfolding whole_def by blast
qed

lemma mg_tot: "mg (Fin (tot xs)) \<le> magn xs"
proof (induction xs)
  case Nil
  then show ?case by simp
next
  case (Cons x xs)
  have "\<bar>fv x + tot xs\<bar> \<le> \<bar>fv x\<bar> + \<bar>tot xs\<bar>" by (rule abs_triangle_ineq)
  with Cons show ?case by (simp add: mg_def)
qed

lemma foldl_fadd_exact:
  assumes "whole a" "wholes xs" "mg a + magn xs \<le> 2 ^ 53"
  shows "foldl fadd a xs = Fin (fv a + tot xs)"
  using assms
proof (induction xs arbitrary: a)
  case Nil
  then show ?case by (simp add: whole_Fin_fv)
next
  case (Cons x xs)
  have b: "mg a + mg x \<le> 2 ^ 53" using Cons.prems(3) magn_nonneg [of xs] by simp
  have wx: "whole x" using Cons.prems(2) by simp
  note f = fadd_whole [OF Cons.prems(1) wx b]
  have "foldl fadd (fadd a x) xs = Fin (fv (fadd a x) + tot xs)"
  proof (rule Cons.IH)
    show "whole (fadd a x)" by (rule f(2))
    show "wholes xs" using Cons.prems(2) by simp
    show "mg (fadd a x) + magn xs \<le> 2 ^ 53"
      using f(3) Cons.prems(3) by simp
  qed
  then show ?case by (simp add: f(1))
qed

lemma kahan_exact:
  assumes "whole s" "wholes xs" "mg s + magn xs \<le> 2 ^ 53"
  shows "foldl kahan_step (s, Fin 0) xs = (Fin (fv s + tot xs), Fin 0)"
  using assms
proof (induction xs arbitrary: s)
  case Nil
  then show ?case by (simp add: whole_Fin_fv)
next
  case (Cons x xs)
  have b: "mg s + mg x \<le> 2 ^ 53" using Cons.prems(3) magn_nonneg [of xs] by simp
  have wx: "whole x" using Cons.prems(2) by simp
  from wx obtain v :: int where x: "x = Fin (of_int v)" by (auto simp: whole_def)
  from Cons.prems(1) obtain u :: int where s: "s = Fin (of_int u)" by (auto simp: whole_def)
  have vb: "\<bar>v\<bar> \<le> 2 ^ 53"
  proof -
    have "mg x \<le> 2 ^ 53" using b mg_nonneg [of s] by simp
    then have "\<bar>(of_int v :: rat)\<bar> \<le> 2 ^ 53" by (simp add: x mg_def)
    then show ?thesis by (metis of_int_abs of_int_le_iff of_int_numeral of_int_power)
  qed
  have flv: "fl (of_int v) = Fin (of_int v)" using vb by (rule fl_of_int)
  note f = fadd_whole [OF Cons.prems(1) wx b]
  have y: "fsub x (Fin 0) = x" by (simp add: fsub_def x flv)
  have t: "fadd s x = Fin (of_int u + of_int v)" using f(1) by (simp add: s x)
  have c1: "fsub (fadd s x) s = x" by (simp only: t) (simp add: s x fsub_def flv)
  have c2: "fsub x x = Fin 0" by (simp add: fsub_def x fl_def)
  have xn: "x \<noteq> NaN" by (simp add: x)
  have step: "kahan_step (s, Fin 0) x = (fadd s x, Fin 0)"
    by (simp add: kahan_step.simps xn y c1 c2 Let_def)
  have "foldl kahan_step (fadd s x, Fin 0) xs = (Fin (fv (fadd s x) + tot xs), Fin 0)"
  proof (rule Cons.IH)
    show "whole (fadd s x)" by (rule f(2))
    show "wholes xs" using Cons.prems(2) by simp
    show "mg (fadd s x) + magn xs \<le> 2 ^ 53"
      using f(3) Cons.prems(3) by simp
  qed
  then show ?case by (simp add: step f(1))
qed

lemma group_sum_exact:
  assumes "wholes xs" "magn xs \<le> 2 ^ 53"
  shows "group_sum xs = Fin (tot xs)"
  using kahan_exact [OF whole_zero assms(1)] assms(2) by (simp add: group_sum_def)

lemma map2_fadd_exact:
  assumes "length rs = length bs" "wholes rs" "wholes bs" "magn rs + magn bs \<le> 2 ^ 53"
  shows "wholes (map2 fadd rs bs) \<and> tot (map2 fadd rs bs) = tot rs + tot bs
       \<and> magn (map2 fadd rs bs) \<le> magn rs + magn bs"
  using assms
proof (induction rs bs rule: list_induct2)
  case Nil
  then show ?case by simp
next
  case (Cons r rs b bs)
  have nn: "0 \<le> magn rs" "0 \<le> magn bs" by (rule magn_nonneg)+
  have rb: "mg r + mg b \<le> 2 ^ 53" using Cons.prems(3) nn by simp
  have wr: "whole r" and wb: "whole b" using Cons.prems by simp_all
  note f = fadd_whole [OF wr wb rb]
  have rest: "magn rs + magn bs \<le> 2 ^ 53"
    using Cons.prems(3) mg_nonneg [of r] mg_nonneg [of b] by simp
  have IH: "wholes (map2 fadd rs bs) \<and> tot (map2 fadd rs bs) = tot rs + tot bs
       \<and> magn (map2 fadd rs bs) \<le> magn rs + magn bs"
    using Cons.prems rest by (intro Cons.IH) simp_all
  show ?case using IH f by simp
qed

lemma add8_exact:
  assumes "length r = 8" "wholes r" "wholes xs" "magn r + magn xs \<le> 2 ^ 53"
  shows "case add8 r xs of (r', rest) \<Rightarrow>
           length r' = 8 \<and> wholes r' \<and> wholes rest
         \<and> tot r' + tot rest = tot r + tot xs
         \<and> magn r' + magn rest \<le> magn r + magn xs"
  using assms
proof (induction r xs rule: add8.induct)
  case (1 r xs)
  show ?case
  proof (cases "length xs < 8")
    case True
    then show ?thesis using "1.prems" by (subst add8.simps) simp
  next
    case False
    define b where "b = take 8 xs"
    define ys where "ys = drop 8 xs"
    have xs: "xs = b @ ys" by (simp add: b_def ys_def)
    have lb: "length b = 8" using False by (simp add: b_def)
    have wb: "wholes b" and wys: "wholes ys" using "1.prems"(3) xs by simp_all
    have mg: "magn r + magn b + magn ys \<le> 2 ^ 53" using "1.prems"(4) xs by simp
    have rb: "magn r + magn b \<le> 2 ^ 53" using mg magn_nonneg [of ys] by simp
    have m2: "wholes (map2 fadd r b) \<and> tot (map2 fadd r b) = tot r + tot b
       \<and> magn (map2 fadd r b) \<le> magn r + magn b"
      using "1.prems"(1,2) lb wb rb by (intro map2_fadd_exact) simp_all
    have IH: "case add8 (map2 fadd r b) ys of (r', rest) \<Rightarrow>
           length r' = 8 \<and> wholes r' \<and> wholes rest
         \<and> tot r' + tot rest = tot (map2 fadd r b) + tot ys
         \<and> magn r' + magn rest \<le> magn (map2 fadd r b) + magn ys"
      unfolding b_def ys_def
    proof (rule "1.IH" [OF False])
      show "length (map2 fadd r (take 8 xs)) = 8" using "1.prems"(1) lb by (simp add: b_def)
      show "wholes (map2 fadd r (take 8 xs))" using m2 by (simp add: b_def)
      show "wholes (drop 8 xs)" using wys by (simp add: ys_def)
      show "magn (map2 fadd r (take 8 xs)) + magn (drop 8 xs) \<le> 2 ^ 53"
        using m2 mg by (simp add: b_def ys_def)
    qed
    have unf: "add8 r xs = add8 (map2 fadd r b) ys"
      using False by (subst add8.simps) (simp add: b_def ys_def)
    show ?thesis
      using IH m2 unfolding unf by (auto simp: xs split: prod.splits)
  qed
qed

lemma tree8_exact:
  assumes "length r = 8" "wholes r" "magn r \<le> 2 ^ 53"
  shows "tree8 r = Fin (tot r) \<and> whole (tree8 r) \<and> mg (tree8 r) \<le> magn r"
proof -
  from assms(1) obtain r0 r1 r2 r3 r4 r5 r6 r7 where r: "r = [r0, r1, r2, r3, r4, r5, r6, r7]"
    by (auto simp: length_Suc_conv eval_nat_numeral)
  have w: "whole r0" "whole r1" "whole r2" "whole r3" "whole r4" "whole r5" "whole r6" "whole r7"
    using assms(2) by (simp_all add: r)
  have m: "mg r0 + mg r1 + mg r2 + mg r3 + mg r4 + mg r5 + mg r6 + mg r7 \<le> 2 ^ 53"
    using assms(3) by (simp add: r)
  note nn = mg_nonneg [of r0] mg_nonneg [of r1] mg_nonneg [of r2] mg_nonneg [of r3]
    mg_nonneg [of r4] mg_nonneg [of r5] mg_nonneg [of r6] mg_nonneg [of r7]
  have m01: "mg r0 + mg r1 \<le> 2 ^ 53" and m23: "mg r2 + mg r3 \<le> 2 ^ 53"
    and m45: "mg r4 + mg r5 \<le> 2 ^ 53" and m67: "mg r6 + mg r7 \<le> 2 ^ 53"
    using m nn by linarith+
  note a01 = fadd_whole [OF w(1) w(2) m01]
  note a23 = fadd_whole [OF w(3) w(4) m23]
  note a45 = fadd_whole [OF w(5) w(6) m45]
  note a67 = fadd_whole [OF w(7) w(8) m67]
  have m03: "mg (fadd r0 r1) + mg (fadd r2 r3) \<le> 2 ^ 53"
    using m nn a01(3) a23(3) by linarith
  have m47: "mg (fadd r4 r5) + mg (fadd r6 r7) \<le> 2 ^ 53"
    using m nn a45(3) a67(3) by linarith
  note b03 = fadd_whole [OF a01(2) a23(2) m03]
  note b47 = fadd_whole [OF a45(2) a67(2) m47]
  have m07: "mg (fadd (fadd r0 r1) (fadd r2 r3)) + mg (fadd (fadd r4 r5) (fadd r6 r7)) \<le> 2 ^ 53"
    using m nn a01(3) a23(3) a45(3) a67(3) b03(3) b47(3) by linarith
  note c = fadd_whole [OF b03(2) b47(2) m07]
  have t: "tree8 r = fadd (fadd (fadd r0 r1) (fadd r2 r3)) (fadd (fadd r4 r5) (fadd r6 r7))"
    by (simp add: r)
  have v1: "fv (fadd r0 r1) = fv r0 + fv r1" by (simp only: a01(1) fv.simps)
  have v2: "fv (fadd r2 r3) = fv r2 + fv r3" by (simp only: a23(1) fv.simps)
  have v3: "fv (fadd r4 r5) = fv r4 + fv r5" by (simp only: a45(1) fv.simps)
  have v4: "fv (fadd r6 r7) = fv r6 + fv r7" by (simp only: a67(1) fv.simps)
  have v5: "fv (fadd (fadd r0 r1) (fadd r2 r3)) = fv (fadd r0 r1) + fv (fadd r2 r3)"
    by (simp only: b03(1) fv.simps)
  have v6: "fv (fadd (fadd r4 r5) (fadd r6 r7)) = fv (fadd r4 r5) + fv (fadd r6 r7)"
    by (simp only: b47(1) fv.simps)
  have v: "fv (fadd (fadd r0 r1) (fadd r2 r3)) + fv (fadd (fadd r4 r5) (fadd r6 r7)) = tot r"
    unfolding v5 v6 v1 v2 v3 v4 by (simp add: r)
  have "tree8 r = Fin (tot r)" unfolding t using c(1) v by simp
  moreover have "whole (tree8 r)" unfolding t by (rule c(2))
  moreover have "mg (tree8 r) \<le> magn r"
  proof -
    have "magn r = mg r0 + mg r1 + mg r2 + mg r3 + mg r4 + mg r5 + mg r6 + mg r7"
      by (simp add: r)
    then show ?thesis
      unfolding t using c(3) a01(3) a23(3) a45(3) a67(3) b03(3) b47(3) by linarith
  qed
  ultimately show ?thesis by blast
qed

lemma block_sum_exact:
  assumes "8 \<le> length xs" "wholes xs" "magn xs \<le> 2 ^ 53"
  shows "block_sum xs = Fin (tot xs)"
proof -
  define r where "r = take 8 xs"
  define ys where "ys = drop 8 xs"
  have xs: "xs = r @ ys" by (simp add: r_def ys_def)
  have lr: "length r = 8" using assms(1) by (simp add: r_def)
  have w: "wholes r" "wholes ys" using assms(2) xs by simp_all
  have mg: "magn r + magn ys \<le> 2 ^ 53" using assms(3) xs by simp
  obtain r' rest where a8: "add8 r ys = (r', rest)" by (cases "add8 r ys")
  have P: "length r' = 8" "wholes r'" "wholes rest" "tot r' + tot rest = tot r + tot ys"
    "magn r' + magn rest \<le> magn r + magn ys"
    using add8_exact [OF lr w mg] by (simp_all add: a8)
  have mr: "magn r' \<le> 2 ^ 53" using P(5) mg magn_nonneg [of rest] by simp
  note te = tree8_exact [OF P(1) P(2) mr]
  have T: "tree8 r' = Fin (tot r')" "whole (tree8 r')" "mg (tree8 r') \<le> magn r'"
    using te by blast+
  have b: "mg (tree8 r') + magn rest \<le> 2 ^ 53" using T(3) P(5) mg by simp
  have "foldl fadd (tree8 r') rest = Fin (fv (tree8 r') + tot rest)"
    using T(2) P(3) b by (rule foldl_fadd_exact)
  also have "fv (tree8 r') = tot r'" by (simp only: T(1) fv.simps)
  finally have "foldl fadd (tree8 r') rest = Fin (tot xs)" using P(4) by (simp add: xs)
  then show ?thesis by (simp add: block_sum_def a8 r_def [symmetric] ys_def [symmetric])
qed

lemma pairwise_sum_exact:
  assumes "wholes xs" "magn xs \<le> 2 ^ 53"
  shows "pairwise_sum xs = Fin (tot xs)"
  using assms
proof (induction xs rule: pairwise_sum.induct)
  case (1 xs)
  consider "length xs < 8" | "8 \<le> length xs" "length xs \<le> 128" | "128 < length xs" by linarith
  then show ?case
  proof cases
    case 1
    have "foldl fadd (Fin 0) xs = Fin (fv (Fin 0) + tot xs)"
      using "1.prems" by (intro foldl_fadd_exact whole_zero) simp_all
    with 1 show ?thesis by (subst pairwise_sum.simps) simp
  next
    case 2
    have "block_sum xs = Fin (tot xs)" using 2(1) "1.prems" by (rule block_sum_exact)
    with 2 show ?thesis by (subst pairwise_sum.simps) simp
  next
    case 3
    define n2 where "n2 = length xs div 2 - length xs div 2 mod 8"
    have c: "\<not> length xs < 8" "\<not> length xs \<le> 128" using 3 by simp_all
    have xs: "take n2 xs @ drop n2 xs = xs" by simp
    have w: "wholes (take n2 xs)" "wholes (drop n2 xs)"
      using "1.prems"(1) by (metis xs wholes_simps(3))+
    have mg: "magn (take n2 xs) + magn (drop n2 xs) \<le> 2 ^ 53"
      using "1.prems"(2) by (metis xs magn_simps(3))
    have m1: "magn (take n2 xs) \<le> 2 ^ 53" and m2: "magn (drop n2 xs) \<le> 2 ^ 53"
      using mg magn_nonneg [of "take n2 xs"] magn_nonneg [of "drop n2 xs"] by simp_all
    have p1: "pairwise_sum (take n2 xs) = Fin (tot (take n2 xs))"
      unfolding n2_def by (rule "1.IH"(1) [OF c]) (use w m1 in \<open>simp_all add: n2_def\<close>)
    have p2: "pairwise_sum (drop n2 xs) = Fin (tot (drop n2 xs))"
      unfolding n2_def by (rule "1.IH"(2) [OF c]) (use w m2 in \<open>simp_all add: n2_def\<close>)
    have b: "mg (Fin (tot (take n2 xs))) + mg (Fin (tot (drop n2 xs))) \<le> 2 ^ 53"
      using mg mg_tot [of "take n2 xs"] mg_tot [of "drop n2 xs"] by linarith
    have "fadd (Fin (tot (take n2 xs))) (Fin (tot (drop n2 xs)))
        = Fin (fv (Fin (tot (take n2 xs))) + fv (Fin (tot (drop n2 xs))))"
      using whole_tot [OF w(1)] whole_tot [OF w(2)] b by (rule fadd_whole(1))
    also have "\<dots> = Fin (tot (take n2 xs @ drop n2 xs))" by (simp only: fv.simps tot_simps(3))
    also have "\<dots> = Fin (tot xs)" by (simp only: xs)
    finally have r: "fadd (pairwise_sum (take n2 xs)) (pairwise_sum (drop n2 xs)) = Fin (tot xs)"
      by (simp only: p1 p2)
    show ?thesis
      by (subst pairwise_sum.simps) (simp only: c if_False r [unfolded n2_def])
  qed
qed

lemma np_sum_exact:
  assumes "wholes xs" "magn xs \<le> 2 ^ 53"
  shows "np_sum xs = Fin (tot xs)"
proof -
  have b: "mg (Fin 0) + mg (Fin (tot xs)) \<le> 2 ^ 53" using mg_tot [of xs] assms(2) by simp
  have "fadd (Fin 0) (Fin (tot xs)) = Fin (fv (Fin 0) + fv (Fin (tot xs)))"
    using whole_zero whole_tot [OF assms(1)] b by (rule fadd_whole(1))
  then show ?thesis by (simp add: np_sum_def pairwise_sum_exact [OF assms])
qed

lemma fl_numeral:
  assumes "numeral k \<le> (2 ^ 53 :: int)"
  shows "fl (numeral k) = Fin (numeral k)" and "fl (- numeral k) = Fin (- numeral k)"
proof -
  have "\<bar>numeral k :: int\<bar> \<le> 2 ^ 53" "\<bar>- numeral k :: int\<bar> \<le> 2 ^ 53" using assms by simp_all
  from this [THEN fl_of_int] show "fl (numeral k) = Fin (numeral k)"
    and "fl (- numeral k) = Fin (- numeral k)" by simp_all
qed

lemma fl_0_1 [simp]: "fl 0 = Fin 0" "fl 1 = Fin 1"
  using fl_of_int [of 0] fl_of_int [of 1] by simp_all

lemma ilog2_tie: "ilog2 9007199254740993 = 53"
  by code_simp

lemma ilog2_even: "ilog2 9007199254740994 = 53"
  by code_simp

lemma floor_tie: "\<lfloor>9007199254740993 / 2 :: rat\<rfloor> = 4503599627370496"
  by code_simp

lemma fl_tie: "fl 9007199254740993 = Fin 9007199254740992"
  by (simp add: fl_def Let_def ilog2_tie pow2_def rne_def floor_tie)

lemma fl_even: "fl 9007199254740994 = Fin 9007199254740994"
  by (simp add: fl_def Let_def ilog2_even pow2_def rne_def)


subsection \<open>Sums of amounts\<close>

lemma sum_filter_le:
  fixes f :: "'a \<Rightarrow> rat"
  assumes "\<And>x. 0 \<le> f x"
  shows "sum_list (map f (filter P xs)) \<le> sum_list (map f xs)"
proof (induction xs)
  case Nil
  then show ?case by simp
next
  case (Cons x xs)
  then show ?case using assms [of x] by auto
qed

lemma member_le_sum:
  fixes f :: "'a \<Rightarrow> rat"
  assumes "\<And>x. 0 \<le> f x" "r \<in> set xs"
  shows "f r \<le> sum_list (map f xs)"
  using assms(2)
proof (induction xs)
  case Nil
  then show ?case by simp
next
  case (Cons x xs)
  have nn: "0 \<le> sum_list (map f xs)" by (rule sum_list_nonneg) (auto simp: assms(1))
  show ?case
  proof (cases "r = x")
    case True
    then show ?thesis using nn by simp
  next
    case False
    with Cons have "f r \<le> sum_list (map f xs)" by simp
    then show ?thesis using assms(1) [of x] by simp
  qed
qed

lemma whole_amounts_filter: "whole_amounts rows \<Longrightarrow> whole_amounts (filter P rows)"
proof -
  assume w: "whole_amounts rows"
  have "sum_list (map (\<lambda>r. \<bar>e_amount r\<bar>) (filter P rows)) \<le> sum_list (map (\<lambda>r. \<bar>e_amount r\<bar>) rows)"
    by (rule sum_filter_le) simp
  with w show ?thesis by (auto simp: whole_amounts_def)
qed

lemma amount_f_exact:
  assumes "whole_amounts rows" "r \<in> set rows"
  shows "amount_f r = Fin (e_amount r)" and "whole (amount_f r)"
proof -
  define z where "z = \<lfloor>e_amount r\<rfloor>"
  have ez: "e_amount r = of_int z" using assms by (simp add: whole_amounts_def z_def)
  have "\<bar>e_amount r\<bar> \<le> sum_list (map (\<lambda>r. \<bar>e_amount r\<bar>) rows)"
    using assms(2) by (intro member_le_sum) simp_all
  then have "\<bar>(of_int z :: rat)\<bar> \<le> 2 ^ 53" using assms(1) ez by (simp add: whole_amounts_def)
  then have "\<bar>z\<bar> \<le> 2 ^ 53"
    by (metis of_int_abs of_int_le_iff of_int_numeral of_int_power)
  then have f: "fl (of_int z) = Fin (of_int z)" by (rule fl_of_int)
  show "amount_f r = Fin (e_amount r)" using f by (simp add: amount_f_def ez)
  then show "whole (amount_f r)" unfolding whole_def ez by blast
qed

lemma amounts_exact:
  assumes "whole_amounts rows"
  shows "wholes (map amount_f rows)"
    and "tot (map amount_f rows) = sum_list (map e_amount rows)"
    and "magn (map amount_f rows) = sum_list (map (\<lambda>r. \<bar>e_amount r\<bar>) rows)"
proof -
  have eq: "map amount_f rows = map (\<lambda>r. Fin (e_amount r)) rows"
    using amount_f_exact(1) [OF assms] by (intro map_cong) simp_all
  show "wholes (map amount_f rows)"
    using amount_f_exact(2) [OF assms] by (auto simp: wholes_def)
  show "tot (map amount_f rows) = sum_list (map e_amount rows)"
    by (simp add: eq tot_def comp_def)
  show "magn (map amount_f rows) = sum_list (map (\<lambda>r. \<bar>e_amount r\<bar>) rows)"
    by (simp add: eq magn_def comp_def mg_def)
qed

lemma magn_amounts_bound: "whole_amounts rows \<Longrightarrow> magn (map amount_f rows) \<le> 2 ^ 53"
  using amounts_exact(3) [of rows] by (simp add: whole_amounts_def)

lemma np_sum_amounts:
  assumes "whole_amounts rows"
  shows "np_sum (map amount_f rows) = Fin (sum_list (map e_amount rows))"
  using np_sum_exact [OF amounts_exact(1) [OF assms] magn_amounts_bound [OF assms]]
  by (simp add: amounts_exact(2) [OF assms])

lemma group_sum_amounts:
  assumes "whole_amounts rows"
  shows "group_sum (map amount_f rows) = Fin (sum_list (map e_amount rows))"
  using group_sum_exact [OF amounts_exact(1) [OF assms] magn_amounts_bound [OF assms]]
  by (simp add: amounts_exact(2) [OF assms])

lemma sum_list_indicator:
  "distinct ks \<Longrightarrow> k \<in> set ks \<Longrightarrow>
   sum_list (map (\<lambda>k'. if k = k' then (v::rat) else 0) ks) = v"
  by (simp add: sum_list_distinct_conv_sum_set)

lemma sum_list_groups:
  fixes f :: "'a \<Rightarrow> rat"
  shows "distinct ks \<Longrightarrow> set (map key rows) \<subseteq> set ks \<Longrightarrow>
   sum_list (map (\<lambda>k. sum_list (map f (filter (\<lambda>r. key r = k) rows))) ks)
     = sum_list (map f rows)"
proof (induction rows)
  case Nil
  then show ?case by simp
next
  case (Cons r rows)
  have split: "\<And>k. sum_list (map f (filter (\<lambda>r. key r = k) (r # rows)))
      = (if key r = k then f r else 0)
        + sum_list (map f (filter (\<lambda>r. key r = k) rows))"
    by simp
  have "key r \<in> set ks" using Cons.prems by simp
  with Cons.prems
  have "sum_list (map (\<lambda>k. if key r = k then f r else 0) ks) = f r"
    by (simp add: sum_list_indicator)
  moreover
  have "sum_list (map (\<lambda>k. sum_list (map f (filter (\<lambda>r. key r = k) rows))) ks)
     = sum_list (map f rows)"
    using Cons.prems by (intro Cons.IH) auto
  ultimately show ?case
    by (simp only: split sum_list_addf list.map sum_list.Cons)
qed

lemma abs_sum_le:
  fixes f :: "'a \<Rightarrow> rat"
  shows "\<bar>sum_list (map f xs)\<bar> \<le> sum_list (map (\<lambda>x. \<bar>f x\<bar>) xs)"
  by (induction xs) auto

lemma sum_groups_sorted:
  fixes f :: "'a \<Rightarrow> rat"
  shows "sum_list (map (\<lambda>k. sum_list (map f (filter (\<lambda>r. key r = k) rows)))
           (sort (remdups (map key rows)))) = sum_list (map f rows)"
  by (rule sum_list_groups) simp_all

lemma groupby_values_exact:
  assumes "whole_amounts rows"
  shows "map snd (groupby_sum key rows) =
     map (\<lambda>k. Fin (sum_list (map e_amount (filter (\<lambda>r. key r = k) rows))))
       (sort (remdups (map key rows)))"
proof -
  have "\<And>k. group_sum (map amount_f (filter (\<lambda>r. key r = k) rows))
      = Fin (sum_list (map e_amount (filter (\<lambda>r. key r = k) rows)))"
    by (rule group_sum_amounts) (rule whole_amounts_filter [OF assms])
  then show ?thesis by (simp add: groupby_sum_def comp_def)
qed

lemma groupby_values_wholes:
  assumes "whole_amounts rows"
  shows "wholes (map snd (groupby_sum key rows))"
    and "tot (map snd (groupby_sum key rows)) = sum_list (map e_amount rows)"
    and "magn (map snd (groupby_sum key rows)) \<le> 2 ^ 53"
proof -
  let ?ks = "sort (remdups (map key rows))"
  let ?g = "\<lambda>k. sum_list (map e_amount (filter (\<lambda>r. key r = k) rows))"
  let ?h = "\<lambda>k. sum_list (map (\<lambda>r. \<bar>e_amount r\<bar>) (filter (\<lambda>r. key r = k) rows))"
  note eq = groupby_values_exact [OF assms, of key]
  have wk: "whole (Fin (?g k))" for k
  proof -
    have "wholes (map amount_f (filter (\<lambda>r. key r = k) rows))"
      by (rule amounts_exact(1)) (rule whole_amounts_filter [OF assms])
    from whole_tot [OF this] show ?thesis
      by (simp add: amounts_exact(2) [OF whole_amounts_filter [OF assms]])
  qed
  show "wholes (map snd (groupby_sum key rows))"
    unfolding eq using wk by (auto simp: wholes_def)
  show "tot (map snd (groupby_sum key rows)) = sum_list (map e_amount rows)"
    unfolding eq using sum_groups_sorted [where key = key and rows = rows and f = e_amount]
    by (simp add: tot_def comp_def)
  have "magn (map snd (groupby_sum key rows)) = sum_list (map (\<lambda>k. \<bar>?g k\<bar>) ?ks)"
    unfolding eq by (simp add: magn_def comp_def mg_def)
  also have "\<dots> \<le> sum_list (map ?h ?ks)"
    by (intro sum_list_mono) (rule abs_sum_le)
  also have "\<dots> = sum_list (map (\<lambda>r. \<bar>e_amount r\<bar>) rows)"
    using sum_groups_sorted [where key = key and rows = rows and f = "\<lambda>r. \<bar>e_amount r\<bar>"] by simp
  also have "\<dots> \<le> 2 ^ 53" using assms by (simp add: whole_amounts_def)
  finally show "magn (map snd (groupby_sum key rows)) \<le> 2 ^ 53" .
qed

lemma map_of_tabulate:
  "map_of (map (\<lambda>k. (k, f k)) ks) k = (if k \<in> set ks then Some (f k) else None)"
  by (induction ks) auto

lemma groupby_sum_lookup:
  "map_of (groupby_sum key rows) k =
     (if k \<in> key ` set rows
      then Some (group_sum (map amount_f (filter (\<lambda>r. key r = k) rows)))
      else None)"
  by (simp add: groupby_sum_def map_of_tabulate)

lemma groupby_sum_length:
  "length (groupby_sum key rows) = card (key ` set rows)"
  by (simp add: groupby_sum_def length_remdups_card_conv)

section \<open>The amounts spent by category and the total\<close>

lemma total_spent_exact:
  "whole_amounts M \<Longrightarrow> total_spent M = Fin (sum_list (map e_amount M))"
  by (simp add: total_spent_def np_sum_amounts)

lemma category_sums_exact:
  assumes "whole_amounts M"
  shows "np_sum (map snd (spent_by_cat M)) = Fin (sum_list (map e_amount M))"
    and "foldl fadd (Fin 0) (map snd (spent_by_cat M)) = Fin (sum_list (map e_amount M))"
proof -
  note g = groupby_values_wholes [OF assms, of e_category]
  show "np_sum (map snd (spent_by_cat M)) = Fin (sum_list (map e_amount M))"
    unfolding spent_by_cat_def using np_sum_exact [OF g(1) g(3)] by (simp add: g(2))
  have "mg (Fin 0) + magn (map snd (groupby_sum e_category M)) \<le> 2 ^ 53" using g(3) by simp
  from foldl_fadd_exact [OF whole_zero g(1) this]
  show "foldl fadd (Fin 0) (map snd (spent_by_cat M)) = Fin (sum_list (map e_amount M))"
    unfolding spent_by_cat_def by (simp add: g(2))
qed

lemma spent_lookup_exact:
  assumes "whole_amounts M"
  shows "map_of (spent_by_cat M) c =
     (if c \<in> e_category ` set M
      then Some (Fin (sum_list (map e_amount (filter (\<lambda>r. e_category r = c) M))))
      else None)"
  unfolding spent_by_cat_def groupby_sum_lookup
  by (simp add: group_sum_amounts [OF whole_amounts_filter [OF assms]])

lemma drift_total: "total_spent drift_rows = Fin 9007199254740992"
  by (simp add: total_spent_def drift_rows_def amount_f_def np_sum_def pairwise_sum.simps
      fl_numeral fl_tie)

lemma fl_minus_one: "fl (- 1) = Fin (- 1)"
  using fl_of_int [of "- 1"] by simp

lemma drift_group: "group_sum (map amount_f drift_rows) = Fin 9007199254740994"
  by (simp add: drift_rows_def amount_f_def group_sum_def kahan_step.simps fsub_def Let_def
      fl_numeral fl_tie fl_even fl_minus_one)

lemma drift_spent: "spent_by_cat drift_rows = [(''Food'', Fin 9007199254740994)]"
proof -
  have "filter (\<lambda>r. e_category r = ''Food'') drift_rows = drift_rows"
    by (simp add: drift_rows_def)
  moreover have "sort (remdups (map e_category drift_rows)) = [''Food'']"
    by (simp add: drift_rows_def)
  ultimately show ?thesis by (simp add: spent_by_cat_def groupby_sum_def drift_group)
qed

text \<open>
  Claim C4, as the specification states it, fails: the amounts spent by category do not
  always add up to the total. Three expenses of one category, of \<open>2 ^ 53\<close>, 1 and 1:
  \<open>Series.sum\<close> rounds both additions of 1 away and the total is 9007199254740992,
  while the compensated sum of \<open>groupby\<close> keeps them and the amount spent in the
  category, the only value of \<open>spent_by_cat\<close>, is 9007199254740994.
\<close>

theorem category_sums_differ_from_total:
  "total_spent drift_rows = Fin 9007199254740992
   \<and> spent_by_cat drift_rows = [(''Food'', Fin 9007199254740994)]
   \<and> np_sum (map snd (spent_by_cat drift_rows)) = Fin 9007199254740994"
  by (simp add: drift_total drift_spent np_sum_def pairwise_sum.simps fl_even)

text \<open>
  Claim C4, amended. When the amounts are whole numbers whose magnitudes add up to at
  most \<open>2 ^ 53\<close>, no addition rounds: the total is the exact sum of the amounts, the
  values of \<open>spent_by_cat\<close> add up to the total, whether \<open>Series.sum\<close> adds them
  or they are added one after the other from 0, and the amount spent in a category is
  the exact sum of the amounts of its expenses.
\<close>

theorem category_sums_equal_total_when_exact:
  assumes "whole_amounts M"
  shows "total_spent M = Fin (sum_list (map e_amount M))
       \<and> np_sum (map snd (spent_by_cat M)) = total_spent M
       \<and> foldl fadd (Fin 0) (map snd (spent_by_cat M)) = total_spent M
       \<and> map_of (spent_by_cat M) c =
           (if c \<in> e_category ` set M
            then Some (Fin (sum_list (map e_amount (filter (\<lambda>r. e_category r = c) M))))
            else None)"
  using assms
  by (simp add: total_spent_exact category_sums_exact spent_lookup_exact)

lemma sample_whole: "whole_amounts sample_rows"
  by (simp add: whole_amounts_def sample_rows_def)

theorem category_sums_equal_total_when_exact_witness:
  "whole_amounts sample_rows
   \<and> total_spent sample_rows = Fin 205
   \<and> np_sum (map snd (spent_by_cat sample_rows)) = Fin 205
   \<and> map_of (spent_by_cat sample_rows) ''Food'' = Some (Fin 150)"
  using category_sums_equal_total_when_exact [of sample_rows "''Food''"] sample_whole
  by (simp add: sample_rows_def)

section \<open>The metrics of the month\<close>

lemma month_expenses_in_month:
  "month_expenses this_month rows = filter (in_month this_month) rows"
  by (simp add: month_expenses_def in_month_def [abs_def] strftime_Ym_def)

lemma to_datetime_length:
  "to_datetime conv xs = Some rows \<Longrightarrow> length rows = length xs"
  by (auto simp: to_datetime_def split: option.splits if_splits)

lemma daily_avg_days:
  "daily_avg M =
     mean (map (\<lambda>d. group_sum (map amount_f (filter (\<lambda>r. dt_date (e_date r) = d) M)))
            (sorted_list_of_set ((\<lambda>r. dt_date (e_date r)) ` set M)))"
proof -
  have "sorted_list_of_set ((\<lambda>r. dt_date (e_date r)) ` set M) =
      sort (remdups (map (\<lambda>r. dt_date (e_date r)) M))"
    using sorted_list_of_set_sort_remdups [of "map (\<lambda>r. dt_date (e_date r)) M"] by simp
  then show ?thesis by (simp add: daily_avg_def groupby_sum_def comp_def)
qed

lemma whole_not_NaN: "whole x \<Longrightarrow> x \<noteq> NaN"
  by (auto simp: whole_def)

lemma mean_exact:
  assumes "wholes vs" "magn vs \<le> 2 ^ 53" "vs \<noteq> []"
  shows "mean vs = fdiv (Fin (tot vs)) (fl (of_nat (length vs)))"
proof -
  have n: "\<forall>x\<in>set vs. x \<noteq> NaN" using assms(1) by (auto simp: wholes_def whole_not_NaN)
  then have f: "filter (\<lambda>x. x \<noteq> NaN) vs = vs" by simp
  have m: "map (\<lambda>x. if x = NaN then Fin 0 else x) vs = vs"
    using n by (simp add: map_idI)
  show ?thesis
    unfolding mean_def f m using assms(3) by (simp add: np_sum_exact [OF assms(1,2)])
qed

lemma daily_avg_exact:
  assumes "whole_amounts M" "M \<noteq> []"
  shows "daily_avg M =
     fdiv (Fin (sum_list (map e_amount M)))
       (fl (of_nat (card ((\<lambda>r. dt_date (e_date r)) ` set M))))"
proof -
  let ?vs = "map snd (groupby_sum (\<lambda>r. dt_date (e_date r)) M)"
  note g = groupby_values_wholes [OF assms(1), of "\<lambda>r. dt_date (e_date r)"]
  have len: "length ?vs = card ((\<lambda>r. dt_date (e_date r)) ` set M)"
    using groupby_sum_length [of "\<lambda>r. dt_date (e_date r)" M] by simp
  have "0 < card ((\<lambda>r. dt_date (e_date r)) ` set M)"
    using assms(2) by (simp add: card_gt_0_iff)
  with len have ne: "?vs \<noteq> []" by auto
  show ?thesis
    unfolding daily_avg_def mean_exact [OF g(1) g(3) ne] g(2) len by (rule refl)
qed

lemma dashboard_shown:
  assumes "to_datetime conv (get_expenses s u) = Some rows" "rows \<noteq> []"
  shows "dashboard conv this_month s u =
     Shown \<lparr>m_total = total_spent (filter (in_month this_month) rows),
            m_daily_avg = daily_avg (filter (in_month this_month) rows),
            m_alerts = alerts (get_budget s u) (filter (in_month this_month) rows)\<rparr>"
proof -
  have "get_expenses s u \<noteq> []" using to_datetime_length [OF assms(1)] assms(2) by auto
  then show ?thesis
    by (simp add: dashboard_def Let_def assms(1) month_expenses_in_month)
qed

subsection \<open>A month with no expense\<close>

lemma total_spent_Nil: "total_spent [] = Fin 0"
  by (simp add: total_spent_def np_sum_def pairwise_sum.simps)

lemma daily_avg_Nil: "daily_avg [] = NaN"
  by (simp add: daily_avg_def groupby_sum_def mean_def)

lemma empty_month_metrics:
  assumes "to_datetime conv (get_expenses s u) = Some rows" "rows \<noteq> []"
    and "filter (in_month this_month) rows = []"
  shows "\<exists>m. dashboard conv this_month s u = Shown m \<and> m_total m = Fin 0 \<and> m_daily_avg m = NaN"
  by (simp add: dashboard_shown [OF assms(1,2)] assms(3) total_spent_Nil daily_avg_Nil)

text \<open>
  Claim C2: for a month with no expense the total is 0 and the daily average is refused
  with a distinguished error, not a NaN. The dashboard does not do that. A user whose
  only expense is of 30 April 2024 opens the dashboard in May 2024: the table of
  expenses is not empty, so the notice "No data yet" is not shown; the month has no
  expense, the total is 0, and the daily average is the mean of no day sums, NaN, shown
  as a metric.
\<close>

theorem empty_month_daily_average_is_nan:
  "dashboard sample_conv (2024, 5) april_db ''alice'' =
     Shown \<lparr>m_total = Fin 0, m_daily_avg = NaN, m_alerts = []\<rparr>"
  by code_simp

subsection \<open>The sample month\<close>

lemma sample_parsed:
  "to_datetime sample_conv (get_expenses sample_db ''alice'') = Some sample_rows"
  by code_simp

lemma sample_month: "filter (in_month (2024, 5)) sample_rows = may_rows"
  by code_simp

lemma may_whole: "whole_amounts may_rows"
  by (simp add: whole_amounts_def sample_rows_def may_rows_def)

lemma may_sum: "sum_list (map e_amount may_rows) = 170"
  by (simp add: sample_rows_def may_rows_def)

lemma may_days: "card ((\<lambda>r. dt_date (e_date r)) ` set may_rows) = 2"
  by code_simp

lemma may_nonempty: "may_rows \<noteq> []"
  by (simp add: sample_rows_def may_rows_def)

subsection \<open>The daily average\<close>

lemma drift_parsed:
  "to_datetime sample_conv (get_expenses drift_db ''alice'') = Some drift_rows"
  by code_simp

lemma drift_month: "filter (in_month (2024, 5)) drift_rows = drift_rows"
  by (simp add: drift_rows_def in_month_def day_def)

lemma drift_budget: "get_budget drift_db ''alice'' = []"
  by code_simp

lemma drift_daily_avg: "daily_avg drift_rows = Fin 9007199254740994"
proof -
  have f: "filter (\<lambda>r. dt_date (e_date r) = (2024, 5, Suc 0)) drift_rows = drift_rows"
    by (simp add: drift_rows_def dt_date_def day_def)
  have k: "sort (remdups (map (\<lambda>r. dt_date (e_date r)) drift_rows)) = [(2024, 5, Suc 0)]"
    by (simp add: drift_rows_def dt_date_def day_def)
  have g: "map snd (groupby_sum (\<lambda>r. dt_date (e_date r)) drift_rows) = [Fin 9007199254740994]"
    by (simp add: groupby_sum_def k f drift_group)
  show ?thesis
    by (simp add: daily_avg_def g mean_def np_sum_def pairwise_sum.simps fl_even)
qed

text \<open>
  Claim C3, as the specification states it, fails: the daily average is not always the
  total divided by the number of distinct dates. Three expenses on 1 May 2024, of
  \<open>2 ^ 53\<close>, 1 and 1, and the dashboard of May: the month has one date, the total
  shown is 9007199254740992 and the daily average shown is 9007199254740994, while the
  total divided by 1 is the total.
\<close>

theorem daily_average_differs_from_total_over_days:
  "dashboard sample_conv (2024, 5) drift_db ''alice'' =
     Shown \<lparr>m_total = Fin 9007199254740992, m_daily_avg = Fin 9007199254740994, m_alerts = []\<rparr>
   \<and> card ((\<lambda>r. dt_date (e_date r)) ` set drift_rows) = 1
   \<and> fdiv (Fin 9007199254740992) (fl (of_nat 1)) = Fin 9007199254740992"
proof -
  have "drift_rows \<noteq> []" by (simp add: drift_rows_def)
  from dashboard_shown [OF drift_parsed this, of "(2024, 5)"]
  have "dashboard sample_conv (2024, 5) drift_db ''alice'' =
     Shown \<lparr>m_total = Fin 9007199254740992, m_daily_avg = Fin 9007199254740994, m_alerts = []\<rparr>"
    by (simp add: drift_month drift_total drift_daily_avg drift_budget alerts_def)
  moreover have "card ((\<lambda>r. dt_date (e_date r)) ` set drift_rows) = 1"
    by (simp add: drift_rows_def dt_date_def day_def)
  moreover have "fdiv (Fin 9007199254740992) (fl (of_nat 1)) = Fin 9007199254740992"
    by (simp add: fl_numeral)
  ultimately show ?thesis by blast
qed

text \<open>
  Claim C3, amended. Let the dates of a user's expenses parse, and let the month have at
  least one expense. Then the dashboard shows the metrics; the total is
  \<open>Series.sum\<close> of the amounts of the month; the daily average is the mean of the
  compensated sums of the amounts of each distinct calendar date of the month, whatever
  the number of days of the month. When the amounts of the month are whole numbers whose
  magnitudes add up to at most \<open>2 ^ 53\<close>, the total is their exact sum and the daily
  average is the total divided by the number of distinct dates.
\<close>

theorem daily_average_over_distinct_days:
  assumes "to_datetime conv (get_expenses s u) = Some rows"
    and "M = filter (in_month this_month) rows"
    and "M \<noteq> []"
    and "days = (\<lambda>r. dt_date (e_date r)) ` set M"
  shows "\<exists>m. dashboard conv this_month s u = Shown m
      \<and> m_total m = np_sum (map amount_f M)
      \<and> m_daily_avg m =
          mean (map (\<lambda>d. group_sum (map amount_f (filter (\<lambda>r. dt_date (e_date r) = d) M)))
                 (sorted_list_of_set days))
      \<and> (whole_amounts M \<longrightarrow>
            m_total m = Fin (sum_list (map e_amount M))
          \<and> m_daily_avg m = fdiv (m_total m) (fl (of_nat (card days))))"
proof -
  have ne: "rows \<noteq> []" using assms(2,3) by auto
  note d = dashboard_shown [OF assms(1) ne, of this_month, folded assms(2)]
  have "whole_amounts M \<longrightarrow>
      total_spent M = Fin (sum_list (map e_amount M))
      \<and> daily_avg M = fdiv (total_spent M) (fl (of_nat (card days)))"
    using daily_avg_exact [of M] assms(3) by (simp add: total_spent_exact assms(4))
  then show ?thesis
    unfolding d using daily_avg_days [of M] by (simp add: total_spent_def assms(4))
qed

theorem daily_average_over_distinct_days_witness:
  "to_datetime sample_conv (get_expenses sample_db ''alice'') = Some sample_rows
   \<and> filter (in_month (2024, 5)) sample_rows = may_rows
   \<and> may_rows \<noteq> []
   \<and> whole_amounts may_rows
   \<and> card ((\<lambda>r. dt_date (e_date r)) ` set may_rows) = 2
   \<and> (\<exists>m. dashboard sample_conv (2024, 5) sample_db ''alice'' = Shown m
        \<and> m_total m = Fin 170 \<and> m_daily_avg m = Fin 85)"
proof -
  from daily_average_over_distinct_days
    [OF sample_parsed sample_month [symmetric] may_nonempty refl]
  obtain m where m: "dashboard sample_conv (2024, 5) sample_db ''alice'' = Shown m"
    and w: "whole_amounts may_rows \<longrightarrow>
        m_total m = Fin (sum_list (map e_amount may_rows))
        \<and> m_daily_avg m =
            fdiv (m_total m) (fl (of_nat (card ((\<lambda>r. dt_date (e_date r)) ` set may_rows))))"
    by blast
  from w may_whole have a: "m_total m = Fin (sum_list (map e_amount may_rows))"
    and b: "m_daily_avg m =
        fdiv (m_total m) (fl (of_nat (card ((\<lambda>r. dt_date (e_date r)) ` set may_rows))))"
    by blast+
  have "m_total m = Fin 170" using a by (simp add: may_sum)
  moreover have "m_daily_avg m = Fin 85"
    unfolding b a may_sum may_days by (simp add: fl_numeral)
  ultimately show ?thesis
    using m sample_parsed sample_month may_nonempty may_whole may_days by blast
qed

section \<open>Budget alerts\<close>

lemma lit_08_bounds: "0 < lit_08" "lit_08 < 1"
  by (simp_all add: lit_08_def)

lemma ilog2_08: "ilog2 (4 / 5) = - 1"
  by code_simp

lemma floor_08: "\<lfloor>36028797018963968 / 5 :: rat\<rfloor> = 7205759403792793"
  by code_simp

lemma lit_08_nearest: "fl (8 / 10) = Fin lit_08"
  by (simp add: fl_def Let_def ilog2_08 pow2_def rne_def lit_08_def floor_08)

lemma fdiv_zero_not_gt: "0 \<le> c \<Longrightarrow> \<not> fgt (fdiv (Fin 0) L) c"
  by (cases L) auto

lemma tier_cases:
  "(if fgt r 1 then OVER else if fgt r lit_08 then WARNING else OK) = spec_tier r"
  by (cases r) (auto simp: spec_tier_def)

lemma spec_tier_NaN: "spec_tier NaN = OK"
  by (simp add: spec_tier_def)

lemma fdiv_NaN: "fdiv NaN L = NaN"
  by (cases L) auto

lemma alert_spec_tier:
  "alert (b, case map_of (spent_by_cat M) (b_category b) of
               None \<Rightarrow> Fin 0
             | Some a \<Rightarrow> if a = NaN then Fin 0 else a)
     = spec_tier (ratio M b)"
proof (cases "map_of (spent_by_cat M) (b_category b) = Some NaN")
  case True
  have "\<not> fgt (fdiv (Fin 0) (limit_f b)) 1" "\<not> fgt (fdiv (Fin 0) (limit_f b)) lit_08"
    using lit_08_bounds by (simp_all add: fdiv_zero_not_gt)
  then show ?thesis
    by (simp add: alert_def status_def ratio_def True fdiv_NaN spec_tier_NaN)
next
  case False
  then have eq: "(case map_of (spent_by_cat M) (b_category b) of
               None \<Rightarrow> Fin 0
             | Some a \<Rightarrow> if a = NaN then Fin 0 else a)
      = (case map_of (spent_by_cat M) (b_category b) of None \<Rightarrow> Fin 0 | Some a \<Rightarrow> a)"
    by (auto split: option.splits)
  show ?thesis
    unfolding alert_def status_def ratio_def fst_conv snd_conv eq by (rule tier_cases)
qed

lemma alerts_spec:
  "alerts budget_df M = map (\<lambda>b. (b, spec_tier (ratio M b))) budget_df"
  by (simp add: alerts_def merged_def comp_def alert_spec_tier)


lemma spec_tier_one: "spec_tier (Fin 1) = WARNING"
  using lit_08_bounds by (simp add: spec_tier_def)


lemma sample_budget:
  "get_budget sample_db ''alice'' =
     [\<lparr>b_username = ''alice'', b_category = ''Entertainment'', monthly_limit = 50\<rparr>,
      \<lparr>b_username = ''alice'', b_category = ''Food'', monthly_limit = 150\<rparr>,
      \<lparr>b_username = ''alice'', b_category = ''Health'', monthly_limit = 40\<rparr>,
      \<lparr>b_username = ''alice'', b_category = ''Transport'', monthly_limit = 10\<rparr>]"
  by code_simp

lemma may_spent:
  "map_of (spent_by_cat may_rows) ''Entertainment'' = None"
  "map_of (spent_by_cat may_rows) ''Food'' = Some (Fin 150)"
  "map_of (spent_by_cat may_rows) ''Health'' = None"
  "map_of (spent_by_cat may_rows) ''Transport'' = Some (Fin 20)"
  by (simp_all add: spent_lookup_exact [OF may_whole]) (simp_all add: may_rows_def sample_rows_def)

lemma may_ratios:
  "ratio may_rows \<lparr>b_username = ''alice'', b_category = ''Entertainment'', monthly_limit = 50\<rparr> = Fin 0"
  "ratio may_rows \<lparr>b_username = ''alice'', b_category = ''Food'', monthly_limit = 150\<rparr> = Fin 1"
  "ratio may_rows \<lparr>b_username = ''alice'', b_category = ''Health'', monthly_limit = 40\<rparr> = Fin 0"
  "ratio may_rows \<lparr>b_username = ''alice'', b_category = ''Transport'', monthly_limit = 10\<rparr> = Fin 2"
  by (simp_all add: ratio_def may_spent limit_f_def fl_numeral)

lemma sample_tiers:
  "spec_tier (Fin 0) = OK" "spec_tier (Fin 2) = OVER"
  using lit_08_bounds by (simp_all add: spec_tier_def)


text \<open>
  The quotient and the comparison are those of binary64: 4000000000000001 spent of a
  limit of 5000000000000001 is more than eight tenths, but the quotient rounds to the
  float of \<open>0.8\<close>, which is not greater than itself, and no alert is shown.
\<close>

lemma ilog2_near: "ilog2 (4000000000000001 / 5000000000000001) = - 1"
  by code_simp

lemma floor_near:
  "\<lfloor>36028797018963977007199254740992 / 5000000000000001 :: rat\<rfloor> = 7205759403792793"
  by code_simp

lemma fl_near: "fl (4000000000000001 / 5000000000000001) = Fin lit_08"
  by (simp add: fl_def Let_def ilog2_near pow2_def rne_def lit_08_def floor_near)

lemma near_08_no_alert:
  "alert (\<lparr>b_username = ''alice'', b_category = ''Food'', monthly_limit = 5000000000000001\<rparr>,
          Fin 4000000000000001) = OK"
  using lit_08_bounds by (simp add: alert_def status_def limit_f_def fl_numeral fl_near)

lemma sample_dashboard:
  "dashboard sample_conv (2024, 5) sample_db ''alice'' =
     Shown \<lparr>m_total = Fin 170, m_daily_avg = Fin 85,
       m_alerts =
         [(\<lparr>b_username = ''alice'', b_category = ''Entertainment'', monthly_limit = 50\<rparr>, OK),
          (\<lparr>b_username = ''alice'', b_category = ''Food'', monthly_limit = 150\<rparr>, WARNING),
          (\<lparr>b_username = ''alice'', b_category = ''Health'', monthly_limit = 40\<rparr>, OK),
          (\<lparr>b_username = ''alice'', b_category = ''Transport'', monthly_limit = 10\<rparr>, OVER)]\<rparr>"
proof -
  have "sample_rows \<noteq> []" by (simp add: sample_rows_def)
  from dashboard_shown [OF sample_parsed this, of "(2024, 5)"]
  show ?thesis
    by (simp add: sample_month total_spent_exact [OF may_whole]
        daily_avg_exact [OF may_whole may_nonempty] may_sum may_days fl_numeral
        alerts_spec sample_budget may_ratios sample_tiers spec_tier_one)
qed

section \<open>Invalid records\<close>

text \<open>
  Claim C5: a record with a non-positive amount or a malformed date is rejected and not
  stored. The import does not do that. A user with one expense uploads a file with the
  row \<^verbatim>\<open>not a date,Food,-5.5,refund\<close>: the row is stored as it is, with the next id,
  beside the expense that was there.
\<close>

theorem import_stores_invalid_record:
  "import_expenses (add_expense init_db ''alice'' ''2024-05-01'' ''Food'' 100 ''lunch'') ''alice''
     [\<lparr>c_date = ''not a date'', c_category = ''Food'', c_amount = - 11 / 2,
       c_description = ''refund''\<rparr>]
   = \<lparr>users = [],
      expenses =
        [\<lparr>e_id = 1, e_username = ''alice'', e_date = ''2024-05-01'', e_category = ''Food'',
           e_amount = 100, e_description = ''lunch''\<rparr>,
         \<lparr>e_id = 2, e_username = ''alice'', e_date = ''not a date'', e_category = ''Food'',
           e_amount = - 11 / 2, e_description = ''refund''\<rparr>],
      budget = []\<rparr>"
  by (simp add: import_expenses_def add_expense_def init_db_def next_rowid_def)

end
